theory Spec2Isabelle
  imports Main "HOL-Library.Multiset" "HOL-Library.Product_Lexorder"
begin

section \<open>Values, durations and conversations\<close>

text \<open>
  An attribute declared \<^verbatim>\<open>T | null | undefined\<close>. Timestamps are integral milliseconds;
  \<^verbatim>\<open>NaN\<close> and the infinities are not values of a conversation attribute in this model, so
  \<^verbatim>\<open>isNormalNumber\<close> of an attribute holds exactly for \<open>Value\<close>.
\<close>

datatype 'a optional = Undefined | Null | Value 'a

text \<open>What the storage can hold under a key besides \<^verbatim>\<open>undefined\<close> and \<^verbatim>\<open>null\<close>: a finite
  number, a number that is not finite, or something that is not a number.\<close>

datatype js_value = Num int | NaN | Str string

fun isNil :: "'a optional \<Rightarrow> bool" where
  "isNil Undefined = True"
| "isNil Null = True"
| "isNil (Value v) = False"

fun isNormalNumber :: "js_value optional \<Rightarrow> bool" where
  "isNormalNumber (Value (Num n)) = True"
| "isNormalNumber v = False"

text \<open>Modelled from the spec: the constants of \<^verbatim>\<open>util/durations\<close> are not under src/.
  The spec gives the delays as 1 minute, 12 hours, 24 hours and 30 days, in milliseconds here.\<close>

definition MINUTE :: int where "MINUTE = 60 * 1000"
definition HOUR :: int where "HOUR = 60 * MINUTE"
definition DAY :: int where "DAY = 24 * HOUR"
definition MONTH :: int where "MONTH = 30 * DAY"

definition STORAGE_KEY :: string where
  "STORAGE_KEY = ''lastAttemptedToRefreshProfilesAt''"
definition MAX_AGE_TO_BE_CONSIDERED_ACTIVE :: int where
  "MAX_AGE_TO_BE_CONSIDERED_ACTIVE = MONTH"
definition MAX_AGE_TO_BE_CONSIDERED_RECENTLY_REFRESHED :: int where
  "MAX_AGE_TO_BE_CONSIDERED_RECENTLY_REFRESHED = DAY"
definition MAX_CONVERSATIONS_TO_REFRESH :: nat where
  "MAX_CONVERSATIONS_TO_REFRESH = 50"
definition MIN_ELAPSED_DURATION_TO_REFRESH_AGAIN :: int where
  "MIN_ELAPSED_DURATION_TO_REFRESH_AGAIN = 12 * HOUR"

text \<open>
  Conversations are mutable objects: a reference names the object, the heap holds its
  attributes. \<open>members\<close> is what \<^verbatim>\<open>getMembers()\<close> returns, the member objects themselves;
  \<open>attributes\<close> holds the attributes this file does not name.
  The declared type of \<^verbatim>\<open>type\<close> is \<^verbatim>\<open>'private' | 'group'\<close>; \<open>Unknown\<close> is any other value
  found there at run time, the \<^verbatim>\<open>default\<close> branch of the switch.
\<close>

type_synonym ref = nat

datatype conversation_type = Private | Group | Unknown string

record conversation =
  conversation_id :: string
  conversation_type :: conversation_type
  active_at :: "int optional"
  profileLastFetchedAt :: "int optional"
  profileKeyCredential :: "string optional"
  profileKeyCredentialExpiration :: "int optional"
  uuid :: "string optional"
  e164 :: "string optional"
  members :: "ref list"
  attributes :: "string \<Rightarrow> js_value optional"

type_synonym heap = "ref \<Rightarrow> conversation"

datatype error = MissingCaseError string | FetchError string

definition missingCaseError :: "string \<Rightarrow> error" where
  "missingCaseError x = MissingCaseError x"

section \<open>The throttle\<close>

datatype level = Info | Warn | Error

record world =
  storage :: "string \<Rightarrow> js_value optional"
  heap :: heap
  clock :: int
  log :: "(level \<times> string) list"
  sleeps :: "int list"

definition log_info :: "string \<Rightarrow> world \<Rightarrow> world" where
  "log_info msg w = w\<lparr>log := log w @ [(Info, msg)]\<rparr>"
definition log_warn :: "string \<Rightarrow> world \<Rightarrow> world" where
  "log_warn msg w = w\<lparr>log := log w @ [(Warn, msg)]\<rparr>"
definition log_error :: "string \<Rightarrow> world \<Rightarrow> world" where
  "log_error msg w = w\<lparr>log := log w @ [(Error, msg)]\<rparr>"

text \<open>Modelled from the spec: \<^verbatim>\<open>util/assert\<close> is not under src/. A failed assertion logs
  a data-integrity warning and returns to the caller.\<close>

definition assert :: "bool \<Rightarrow> string \<Rightarrow> world \<Rightarrow> world" where
  "assert condition message w = (if condition then w else log_warn message w)"

definition timeUntilNextRefresh :: "world \<Rightarrow> int \<times> world" where
  "timeUntilNextRefresh w =
     (let storedValue = storage w STORAGE_KEY in
      if isNil storedValue then (0, w)
      else if isNormalNumber storedValue then
        (case storedValue of
           Value (Num n) \<Rightarrow>
             (let planned = n + MIN_ELAPSED_DURATION_TO_REFRESH_AGAIN;
                  now = clock w
              in (max 0 (planned - now), w))
         | _ \<Rightarrow> (0, w))
      else
        (0, assert False
              ''An invalid value was stored in lastAttemptedToRefreshProfilesAt; treating it as nil'' w))"

section \<open>Candidate selection\<close>

definition isConversationActive :: "int \<Rightarrow> conversation \<Rightarrow> bool" where
  "isConversationActive now conversation =
     (case active_at conversation of
        Value activeAt \<Rightarrow> activeAt + MAX_AGE_TO_BE_CONSIDERED_ACTIVE > now
      | _ \<Rightarrow> False)"

definition hasRefreshedProfileRecently :: "int \<Rightarrow> conversation \<Rightarrow> bool" where
  "hasRefreshedProfileRecently now conversation =
     (case profileLastFetchedAt conversation of
        Value fetchedAt \<Rightarrow> fetchedAt + MAX_AGE_TO_BE_CONSIDERED_RECENTLY_REFRESHED > now
      | _ \<Rightarrow> False)"

text \<open>
  \<^verbatim>\<open>sortBy\<close> is lodash's: a stable sort by the iteratee's value, ascending, in which
  numbers come first, then \<^verbatim>\<open>null\<close>, then \<^verbatim>\<open>undefined\<close> (lodash's \<^verbatim>\<open>compareAscending\<close>).
  \<open>sort_rank\<close> maps a value to its place in that order.
\<close>

fun sort_rank :: "int optional \<Rightarrow> nat \<times> int" where
  "sort_rank (Value n) = (0, n)"
| "sort_rank Null = (1, 0)"
| "sort_rank Undefined = (2, 0)"

definition sortBy :: "ref list \<Rightarrow> (ref \<Rightarrow> int optional) \<Rightarrow> ref list" where
  "sortBy collection iteratee = sort_key (\<lambda>c. sort_rank (iteratee c)) collection"

text \<open>
  A generator is modelled by the events it produces when it is resumed until it ends:
  each \<^verbatim>\<open>yield\<close> with the heap as it is at that moment, and a \<^verbatim>\<open>throw\<close>, which ends it.
  A consumer that stops early has seen a prefix of the events, and the heap is then the
  one of the last event it has seen.
\<close>

datatype event = Yield ref heap | Throw error

fun yields :: "event list \<Rightarrow> ref list" where
  "yields [] = []"
| "yields (Yield r h # evs) = r # yields evs"
| "yields (Throw e # evs) = []"

fun raised :: "event list \<Rightarrow> error option" where
  "raised [] = None"
| "raised (Yield r h # evs) = raised evs"
| "raised (Throw e # evs) = Some e"

fun heap_after :: "heap \<Rightarrow> event list \<Rightarrow> heap" where
  "heap_after h [] = h"
| "heap_after h (Yield r h' # evs) = heap_after h' evs"
| "heap_after h (Throw e # evs) = h"

text \<open>The loop over \<^verbatim>\<open>conversation.getMembers()\<close>: the members yielded, in order, and
  the set of ids seen when the loop ends.\<close>

fun scan_members :: "int \<Rightarrow> heap \<Rightarrow> ref list \<Rightarrow> string set \<Rightarrow> ref list \<times> string set" where
  "scan_members now h [] conversationIdsSeen = ([], conversationIdsSeen)"
| "scan_members now h (member # rest) conversationIdsSeen =
     (if conversation_id (h member) \<notin> conversationIdsSeen \<and>
         \<not> hasRefreshedProfileRecently now (h member)
      then (let (out, seen) =
                  scan_members now h rest (insert (conversation_id (h member)) conversationIdsSeen)
            in (member # out, seen))
      else scan_members now h rest conversationIdsSeen)"

text \<open>\<^verbatim>\<open>conversation.set({ profileKeyCredential: null, profileKeyCredentialExpiration: null })\<close>
  on the object \<open>conversation\<close>.\<close>

definition clear_credential :: "heap \<Rightarrow> ref \<Rightarrow> heap" where
  "clear_credential h conversation =
     h(conversation := (h conversation)
         \<lparr>profileKeyCredential := Null, profileKeyCredentialExpiration := Null\<rparr>)"

text \<open>The loop over \<^verbatim>\<open>sorted\<close>. \<open>expired\<close> is \<^verbatim>\<open>hasProfileKeyCredentialExpired()\<close>, a method
  of the conversation model that is not under src/: it is a parameter, any predicate of
  the conversation's attributes.\<close>

fun scan_conversations ::
  "(conversation \<Rightarrow> bool) \<Rightarrow> int \<Rightarrow> string \<Rightarrow> ref list \<Rightarrow> string set \<Rightarrow> heap \<Rightarrow> event list" where
  "scan_conversations expired now ourConversationId [] conversationIdsSeen h = []"
| "scan_conversations expired now ourConversationId (conversation # rest) conversationIdsSeen h =
     (case conversation_type (h conversation) of
        Private \<Rightarrow>
          if expired (h conversation) \<and>
             (conversation_id (h conversation) = ourConversationId \<or>
              conversation_id (h conversation) \<notin> conversationIdsSeen)
          then
            (let h' = clear_credential h conversation
             in Yield conversation h' #
                scan_conversations expired now ourConversationId rest
                  (insert (conversation_id (h' conversation)) conversationIdsSeen) h')
          else if conversation_id (h conversation) \<notin> conversationIdsSeen \<and>
                  isConversationActive now (h conversation) \<and>
                  \<not> hasRefreshedProfileRecently now (h conversation)
          then
            Yield conversation h #
            scan_conversations expired now ourConversationId rest
              (insert (conversation_id (h conversation)) conversationIdsSeen) h
          else scan_conversations expired now ourConversationId rest conversationIdsSeen h
      | Group \<Rightarrow>
          (let (out, seen) = scan_members now h (members (h conversation)) conversationIdsSeen
           in map (\<lambda>member. Yield member h) out @
              scan_conversations expired now ourConversationId rest seen h)
      | Unknown t \<Rightarrow> [Throw (missingCaseError t)])"

definition getFilteredConversations ::
  "(conversation \<Rightarrow> bool) \<Rightarrow> int \<Rightarrow> heap \<Rightarrow> ref list \<Rightarrow> string \<Rightarrow> event list" where
  "getFilteredConversations expired now h conversations ourConversationId =
     (let sorted = sortBy conversations (\<lambda>c. active_at (h c));
          conversationIdsSeen = {ourConversationId}
      in scan_conversations expired now ourConversationId sorted conversationIdsSeen h)"

text \<open>Modelled from the spec: \<^verbatim>\<open>take\<close> of \<^verbatim>\<open>util/iterables\<close> is not under src/. The
  sequence is truncated to the given number of elements, and the scan stops once that many
  have been emitted: the generator is not resumed again.\<close>

fun take_iter :: "event list \<Rightarrow> nat \<Rightarrow> event list" where
  "take_iter evs 0 = []"
| "take_iter [] (Suc n) = []"
| "take_iter (Yield r h # evs) (Suc n) = Yield r h # take_iter evs n"
| "take_iter (Throw e # evs) (Suc n) = [Throw e]"

definition getConversationsToRefresh ::
  "(conversation \<Rightarrow> bool) \<Rightarrow> int \<Rightarrow> heap \<Rightarrow> ref list \<Rightarrow> string \<Rightarrow> event list" where
  "getConversationsToRefresh expired now h conversations ourConversationId =
     (let filteredConversations =
            getFilteredConversations expired now h conversations ourConversationId
      in take_iter filteredConversations MAX_CONVERSATIONS_TO_REFRESH)"

section \<open>One pass\<close>

text \<open>\<^verbatim>\<open>getProfile\<close> is the fetch collaborator: given the uuid and the e164 it resolves
  (\<open>None\<close>) or rejects with an error, and may change conversations.\<close>

type_synonym getProfile = "string optional \<Rightarrow> string optional \<Rightarrow> heap \<Rightarrow> error option \<times> heap"

record counters =
  totalCount :: nat
  successCount :: nat

datatype pass_outcome = TooSoon | Refreshed counters

definition refreshConversation :: "getProfile \<Rightarrow> ref \<Rightarrow> counters \<times> world \<Rightarrow> counters \<times> world" where
  "refreshConversation getProfileFn conversation s =
     (let (n, w) = s;
          w1 = log_info ''routineProfileRefresh: refreshing profile for'' w;
          n1 = n\<lparr>totalCount := totalCount n + 1\<rparr>
      in case getProfileFn (uuid (heap w1 conversation)) (e164 (heap w1 conversation)) (heap w1) of
           (None, h') \<Rightarrow>
             (n1\<lparr>successCount := successCount n1 + 1\<rparr>,
              log_info ''routineProfileRefresh: refreshed profile for'' (w1\<lparr>heap := h'\<rparr>))
         | (Some err, h') \<Rightarrow>
             (n1, log_error ''routineProfileRefresh: refreshed profile for'' (w1\<lparr>heap := h'\<rparr>)))"

text \<open>The \<^verbatim>\<open>for\<close> loop that adds one task per conversation to the queue. It consumes the
  iterable, so a \<^verbatim>\<open>throw\<close> of the generator leaves the loop and the pass; the tasks added
  before the throw stay in the queue. The result is the error thrown, if any, and the queue.\<close>

fun add_all :: "event list \<Rightarrow> world \<Rightarrow> (error option \<times> ref list) \<times> world" where
  "add_all [] w = ((None, []), w)"
| "add_all (Yield conversation h # evs) w =
     (case add_all evs (w\<lparr>heap := h\<rparr>) of
        ((thrown, queue), w') \<Rightarrow> ((thrown, conversation # queue), w'))"
| "add_all (Throw err # evs) w = ((Some err, []), w)"

text \<open>\<^verbatim>\<open>PQueue\<close> starts a task when it is added and runs every task that was added, also
  when the loop that added them has thrown meanwhile; \<^verbatim>\<open>onIdle\<close> resolves when all have
  settled. The tasks only meet at the two counters, so the model runs them one after
  another, in the order they were added.\<close>

definition onIdle :: "getProfile \<Rightarrow> ref list \<Rightarrow> counters \<times> world \<Rightarrow> counters \<times> world" where
  "onIdle getProfileFn queue s = fold (refreshConversation getProfileFn) queue s"

definition routineProfileRefresh ::
  "(conversation \<Rightarrow> bool) \<Rightarrow> getProfile \<Rightarrow> ref list \<Rightarrow> string \<Rightarrow> world
     \<Rightarrow> (error + pass_outcome) \<times> world" where
  "routineProfileRefresh expired getProfileFn allConversations ourConversationId w =
     (let w1 = log_info ''routineProfileRefresh: starting'' w;
          (refreshInMs, w2) = timeUntilNextRefresh w1
      in if refreshInMs > 0
         then (Inr TooSoon, log_info ''routineProfileRefresh: too soon to refresh. Doing nothing'' w2)
         else
           (let w3 = log_info ''routineProfileRefresh: updating last refresh time'' w2;
                w4 = w3\<lparr>storage := (storage w3)(STORAGE_KEY := Value (Num (clock w3)))\<rparr>;
                conversationsToRefresh =
                  getConversationsToRefresh expired (clock w4) (heap w4) allConversations ourConversationId;
                w5 = log_info ''routineProfileRefresh: starting to refresh conversations'' w4
            in case add_all conversationsToRefresh w5 of
                 ((thrown, queue), w6) \<Rightarrow>
                   (let (n, w7) = onIdle getProfileFn queue (\<lparr>totalCount = 0, successCount = 0\<rparr>, w6)
                    in case thrown of
                         Some err \<Rightarrow> (Inl err, w7)
                       | None \<Rightarrow>
                           (Inr (Refreshed n),
                            log_info ''routineProfileRefresh: successfully refreshed'' w7))))"

text \<open>The number of fetches that have been started, read off the log: the lines
  \<^verbatim>\<open>refreshing profile for ...\<close>.\<close>

definition fetches_started :: "world \<Rightarrow> nat" where
  "fetches_started w =
     length (filter (\<lambda>entry. entry = (Info, ''routineProfileRefresh: refreshing profile for''))
               (log w))"

section \<open>The scheduler loop\<close>

definition sleep :: "int \<Rightarrow> world \<Rightarrow> world" where
  "sleep ms w = w\<lparr>clock := clock w + max 0 ms, sleeps := sleeps w @ [ms]\<rparr>"

text \<open>One turn of the \<^verbatim>\<open>while (true)\<close> loop of \<^verbatim>\<open>start\<close>: first the wait until the next
  refresh is due, then the pass inside its \<^verbatim>\<open>try\<close>. An id that is \<^verbatim>\<open>undefined\<close> (\<open>None\<close>)
  or the empty string is falsy. The result is the world after the turn (\<open>Inr\<close>), or the
  exception that left the body and with it the loop (\<open>Inl\<close>): the \<^verbatim>\<open>catch\<close> takes the one
  of the pass.\<close>

definition wait_until_due :: "world \<Rightarrow> world" where
  "wait_until_due w =
     (let (refreshInMs, w1) = timeUntilNextRefresh w;
          w2 = log_info ''routineProfileRefresh: waiting'' w1
      in sleep refreshInMs w2)"





section \<open>Concrete inputs\<close>

text \<open>
  The inputs on which the theorems below are run. \<open>expired_at\<close> is one possible
  \<^verbatim>\<open>hasProfileKeyCredentialExpired\<close>: the expiration has passed. \<open>family\<close> holds the local
  identity (0), alice (1) and bob (2), a group (3) of the three and carol (4), who is only a
  member, and a conversation of a kind that is neither individual nor group (5). \<open>crowd\<close>
  holds the local identity (0), the most recently active, and any number of active
  individual contacts that were never refreshed, contact \<open>r\<close> last active \<open>r\<close> ms ago.
\<close>

definition empty_heap :: heap where
  "empty_heap = (\<lambda>r. \<lparr>conversation_id = [], conversation_type = Private,
     active_at = Undefined, profileLastFetchedAt = Undefined, profileKeyCredential = Undefined,
     profileKeyCredentialExpiration = Undefined, uuid = Undefined, e164 = Undefined, members = [],
     attributes = (\<lambda>name. Undefined)\<rparr>)"

definition world_at :: "js_value optional \<Rightarrow> heap \<Rightarrow> int \<Rightarrow> world" where
  "world_at stored h now =
     \<lparr>storage = (\<lambda>key. if key = STORAGE_KEY then stored else Undefined), heap = h, clock = now,
      log = [], sleeps = []\<rparr>"

definition contact ::
  "string \<Rightarrow> conversation_type \<Rightarrow> int optional \<Rightarrow> int optional \<Rightarrow> int optional \<Rightarrow> ref list
     \<Rightarrow> conversation" where
  "contact name kind activeAt fetchedAt expiration ms =
     \<lparr>conversation_id = name, conversation_type = kind, active_at = activeAt,
      profileLastFetchedAt = fetchedAt, profileKeyCredential = Value ''credential'',
      profileKeyCredentialExpiration = expiration, uuid = Value name, e164 = Undefined,
      members = ms, attributes = (\<lambda>name. Undefined)\<rparr>"

definition expired_at :: "int \<Rightarrow> conversation \<Rightarrow> bool" where
  "expired_at now c =
     (case profileKeyCredentialExpiration c of Value expiration \<Rightarrow> expiration \<le> now | _ \<Rightarrow> False)"

definition today :: int where
  "today = 5000000000"

definition family :: heap where
  "family = (\<lambda>r.
     if r = 0 then contact ''me'' Private (Value 4990000000) (Value 4999000000) (Value 1000) []
     else if r = 1 then contact ''alice'' Private (Value 4000000000) (Value 4999000000) (Value 1000) []
     else if r = 2 then contact ''bob'' Private Undefined Undefined (Value 9000000000) []
     else if r = 3 then contact ''family'' Group (Value 3000000000) Undefined Undefined [0, 1, 2, 4]
     else if r = 4 then contact ''carol'' Private (Value 100) (Value 4999000000) (Value 1000) []
     else contact ''odd'' (Unknown ''channel'') Null Undefined Undefined [])"

definition crowd :: heap where
  "crowd = (\<lambda>r.
     if r = 0 then contact ''me'' Private (Value today) Undefined (Value 1000) []
     else contact (replicate r CHR ''c'') Private (Value (today - int r)) Undefined Undefined [])"


text \<open>A fetch that always rejects.\<close>

definition offline :: getProfile where
  "offline = (\<lambda>u e h. (Some (FetchError ''offline''), h))"

section \<open>Lemmas about the scan and the pass\<close>

subsection \<open>Truncation and the cleared credential\<close>

lemma yields_take_iter: "yields (take_iter evs n) = take n (yields evs)"
  by (induction evs n rule: take_iter.induct) auto

lemma set_take_iter: "set (take_iter evs n) \<subseteq> set evs"
  by (induction evs n rule: take_iter.induct) auto

lemma clear_credential_id [simp]:
  "conversation_id (clear_credential h c r) = conversation_id (h r)"
  by (simp add: clear_credential_def)

lemma clear_credential_type [simp]:
  "conversation_type (clear_credential h c r) = conversation_type (h r)"
  by (simp add: clear_credential_def)

lemma clear_credential_members [simp]:
  "members (clear_credential h c r) = members (h r)"
  by (simp add: clear_credential_def)

lemma clear_credential_active [simp]:
  "isConversationActive now (clear_credential h c r) = isConversationActive now (h r)"
  by (simp add: clear_credential_def isConversationActive_def)

lemma clear_credential_recent [simp]:
  "hasRefreshedProfileRecently now (clear_credential h c r) = hasRefreshedProfileRecently now (h r)"
  by (simp add: clear_credential_def hasRefreshedProfileRecently_def)

lemma clear_credential_active_at [simp]:
  "active_at (clear_credential h c r) = active_at (h r)"
  by (simp add: clear_credential_def)

lemma clear_credential_other: "r \<noteq> c \<Longrightarrow> clear_credential h c r = h r"
  by (simp add: clear_credential_def)

lemma clear_credential_fields [simp]:
  "profileKeyCredential (clear_credential h c c) = Null"
  "profileKeyCredentialExpiration (clear_credential h c c) = Null"
  by (simp_all add: clear_credential_def)

subsection \<open>The loop over the members of a group\<close>

lemma scan_members_Cons:
  "fst (scan_members now h (m # ms) S) =
     (if conversation_id (h m) \<notin> S \<and> \<not> hasRefreshedProfileRecently now (h m)
      then m # fst (scan_members now h ms (insert (conversation_id (h m)) S))
      else fst (scan_members now h ms S))"
  "snd (scan_members now h (m # ms) S) =
     (if conversation_id (h m) \<notin> S \<and> \<not> hasRefreshedProfileRecently now (h m)
      then snd (scan_members now h ms (insert (conversation_id (h m)) S))
      else snd (scan_members now h ms S))"
  by (simp_all add: case_prod_unfold Let_def)

lemma scan_members_append:
  "scan_members now h (xs @ ys) S =
     (fst (scan_members now h xs S) @ fst (scan_members now h ys (snd (scan_members now h xs S))),
      snd (scan_members now h ys (snd (scan_members now h xs S))))"
  by (induction xs arbitrary: S) (simp_all add: case_prod_unfold Let_def)

lemma scan_members_seen:
  "snd (scan_members now h ms S) = S \<union> (\<lambda>m. conversation_id (h m)) ` set (fst (scan_members now h ms S))"
  by (induction ms arbitrary: S) (auto simp: scan_members_Cons simp del: scan_members.simps(2))

lemma scan_members_fresh:
  "m \<in> set (fst (scan_members now h ms S)) \<Longrightarrow>
     conversation_id (h m) \<notin> S \<and> \<not> hasRefreshedProfileRecently now (h m)"
  by (induction ms arbitrary: S)
     (auto simp: scan_members_Cons simp del: scan_members.simps(2) split: if_splits)

lemma scan_members_distinct:
  "distinct (map (\<lambda>m. conversation_id (h m)) (fst (scan_members now h ms S)))"
proof (induction ms arbitrary: S)
  case Nil
  then show ?case by simp
next
  case (Cons m ms)
  have "conversation_id (h m) \<noteq> conversation_id (h x)"
    if "x \<in> set (fst (scan_members now h ms (insert (conversation_id (h m)) S)))" for x
    using scan_members_fresh [OF that] by auto
  then have "conversation_id (h m) \<notin> (\<lambda>m. conversation_id (h m)) `
          set (fst (scan_members now h ms (insert (conversation_id (h m)) S)))"
    by auto
  with Cons.IH show ?case
    by (simp add: scan_members_Cons del: scan_members.simps(2))
qed

subsection \<open>The loop over the sorted conversations, branch by branch\<close>

lemma yields_map_Yield [simp]: "yields (map (\<lambda>member. Yield member h) out @ evs) = out @ yields evs"
  by (induction out) auto

lemma raised_map_Yield [simp]: "raised (map (\<lambda>member. Yield member h) out @ evs) = raised evs"
  by (induction out) auto

lemma scan_Group:
  "conversation_type (h c) = Group \<Longrightarrow>
   scan_conversations ex now our (c # cs) S h =
     map (\<lambda>member. Yield member h) (fst (scan_members now h (members (h c)) S)) @
     scan_conversations ex now our cs (snd (scan_members now h (members (h c)) S)) h"
  by (simp add: case_prod_unfold Let_def)

lemma scan_Unknown:
  "conversation_type (h c) = Unknown t \<Longrightarrow>
   scan_conversations ex now our (c # cs) S h = [Throw (missingCaseError t)]"
  by simp

lemma scan_Private:
  "conversation_type (h c) = Private \<Longrightarrow>
   scan_conversations ex now our (c # cs) S h =
     (if ex (h c) \<and> (conversation_id (h c) = our \<or> conversation_id (h c) \<notin> S)
      then Yield c (clear_credential h c) #
           scan_conversations ex now our cs (insert (conversation_id (h c)) S) (clear_credential h c)
      else if conversation_id (h c) \<notin> S \<and> isConversationActive now (h c) \<and>
              \<not> hasRefreshedProfileRecently now (h c)
      then Yield c h # scan_conversations ex now our cs (insert (conversation_id (h c)) S) h
      else scan_conversations ex now our cs S h)"
  by (auto simp: Let_def)

lemma scan_yields_ids:
  "our \<in> S \<Longrightarrow> r \<in> set (yields (scan_conversations ex now our cs S h)) \<Longrightarrow>
     conversation_id (h r) \<notin> S \<or> (conversation_id (h r) = our \<and> r \<in> set cs)"
proof (induction cs arbitrary: S h)
  case Nil
  then show ?case by simp
next
  case (Cons c cs)
  show ?case
  proof (cases "conversation_type (h c)")
    case Private
    then show ?thesis
      using Cons.prems Cons.IH [of "insert (conversation_id (h c)) S" "clear_credential h c"]
        Cons.IH [of "insert (conversation_id (h c)) S" h] Cons.IH [of S h]
      by (auto simp: scan_Private simp del: scan_conversations.simps split: if_splits)
  next
    case Group
    let ?out = "fst (scan_members now h (members (h c)) S)"
    let ?seen = "snd (scan_members now h (members (h c)) S)"
    have seen: "?seen = S \<union> (\<lambda>m. conversation_id (h m)) ` set ?out"
      by (rule scan_members_seen)
    from Cons.prems Group
    have "r \<in> set ?out \<or> r \<in> set (yields (scan_conversations ex now our cs ?seen h))"
      by (auto simp: scan_Group simp del: scan_conversations.simps)
    then show ?thesis
    proof
      assume "r \<in> set ?out"
      then show ?thesis using scan_members_fresh [of r now h "members (h c)" S] by simp
    next
      assume "r \<in> set (yields (scan_conversations ex now our cs ?seen h))"
      then show ?thesis using Cons.IH [of ?seen h] Cons.prems(1) seen by auto
    qed
  next
    case (Unknown t)
    then show ?thesis using Cons.prems by simp
  qed
qed

lemma distinct_map_ConsD: "distinct (map f (m # ms)) \<Longrightarrow> x \<in> set ms \<Longrightarrow> f x \<noteq> f m"
  by (auto simp: image_iff)

lemma scan_members_filter:
  "distinct (map (\<lambda>m. conversation_id (h m)) ms) \<Longrightarrow>
   fst (scan_members now h ms S) =
     filter (\<lambda>m. conversation_id (h m) \<notin> S \<and> \<not> hasRefreshedProfileRecently now (h m)) ms"
proof (induction ms arbitrary: S)
  case Nil
  then show ?case by simp
next
  case (Cons m ms)
  have other: "conversation_id (h x) \<noteq> conversation_id (h m)" if "x \<in> set ms" for x
    using Cons.prems that by (rule distinct_map_ConsD)
  have "filter (\<lambda>x. conversation_id (h x) \<notin> insert (conversation_id (h m)) S \<and>
                    \<not> hasRefreshedProfileRecently now (h x)) ms =
        filter (\<lambda>x. conversation_id (h x) \<notin> S \<and> \<not> hasRefreshedProfileRecently now (h x)) ms"
    by (rule filter_cong) (auto dest: other)
  with Cons show ?case
    by (simp add: scan_members_Cons del: scan_members.simps(2))
qed

subsection \<open>What the scan leaves unchanged\<close>

text \<open>Only a conversation that is itself scanned is ever written to, and only its two
  credential fields.\<close>

lemma scan_snapshot_frame:
  "Yield r h' \<in> set (scan_conversations ex now our cs S h) \<Longrightarrow> x \<notin> set cs \<Longrightarrow> h' x = h x"
proof (induction cs arbitrary: S h)
  case Nil
  then show ?case by simp
next
  case (Cons c cs)
  from Cons.prems(2) have xc: "x \<noteq> c" and xcs: "x \<notin> set cs" by auto
  show ?case
  proof (cases "conversation_type (h c)")
    case Private
    then show ?thesis
      using Cons.prems(1) xc xcs Cons.IH [of "insert (conversation_id (h c)) S" "clear_credential h c"]
        Cons.IH [of "insert (conversation_id (h c)) S" h] Cons.IH [of S h]
      by (auto simp: scan_Private clear_credential_other simp del: scan_conversations.simps
            split: if_splits)
  next
    case Group
    then show ?thesis
      using Cons.prems(1) xcs Cons.IH [of "snd (scan_members now h (members (h c)) S)" h]
      by (auto simp: scan_Group simp del: scan_conversations.simps)
  next
    case (Unknown t)
    then show ?thesis using Cons.prems by simp
  qed
qed

lemma heap_after_frame:
  "(\<And>r h'. Yield r h' \<in> set evs \<Longrightarrow> h' x = h x) \<Longrightarrow> heap_after h evs x = h x"
proof (induction evs arbitrary: h)
  case Nil
  then show ?case by simp
next
  case (Cons e evs)
  show ?case
  proof (cases e)
    case (Yield r h1)
    have h1: "h1 x = h x" using Cons.prems [of r h1] Yield by simp
    have "heap_after h1 evs x = h1 x"
    proof (rule Cons.IH)
      fix r' h' assume "Yield r' h' \<in> set evs"
      then show "h' x = h1 x" using Cons.prems [of r' h'] h1 by simp
    qed
    with h1 Yield show ?thesis by simp
  next
    case (Throw err)
    then show ?thesis by simp
  qed
qed

lemma scan_yields_not_recent:
  "r \<in> set (yields (scan_conversations ex now our cs S h)) \<Longrightarrow>
     r \<in> set cs \<or> \<not> hasRefreshedProfileRecently now (h r)"
proof (induction cs arbitrary: S h)
  case Nil
  then show ?case by simp
next
  case (Cons c cs)
  show ?case
  proof (cases "conversation_type (h c)")
    case Private
    then show ?thesis
      using Cons.prems Cons.IH [of "insert (conversation_id (h c)) S" "clear_credential h c"]
        Cons.IH [of "insert (conversation_id (h c)) S" h] Cons.IH [of S h]
      by (auto simp: scan_Private simp del: scan_conversations.simps split: if_splits)
  next
    case Group
    then show ?thesis
      using Cons.prems Cons.IH [of "snd (scan_members now h (members (h c)) S)" h]
        scan_members_fresh [of r now h "members (h c)" S]
      by (auto simp: scan_Group simp del: scan_conversations.simps)
  next
    case (Unknown t)
    then show ?thesis using Cons.prems by simp
  qed
qed

lemma set_sortBy [simp]: "set (sortBy cs f) = set cs"
  by (simp add: sortBy_def)

lemma heap_after_map_Yield [simp]:
  "heap_after h (map (\<lambda>member. Yield member h) out @ evs) = heap_after h evs"
  by (induction out) auto

subsection \<open>Induction along the scan\<close>

text \<open>One case for each way the loop body can go: the priority rule, the freshness rule, a
  conversation that is skipped, a group, and a conversation of unknown kind.\<close>

lemma scan_Private_expired:
  "conversation_type (h c) = Private \<Longrightarrow> ex (h c) \<Longrightarrow>
   conversation_id (h c) = our \<or> conversation_id (h c) \<notin> S \<Longrightarrow>
   scan_conversations ex now our (c # cs) S h =
     Yield c (clear_credential h c) #
     scan_conversations ex now our cs (insert (conversation_id (h c)) S) (clear_credential h c)"
  by (simp add: scan_Private del: scan_conversations.simps)

lemma scan_Private_fresh:
  "conversation_type (h c) = Private \<Longrightarrow>
   \<not> (ex (h c) \<and> (conversation_id (h c) = our \<or> conversation_id (h c) \<notin> S)) \<Longrightarrow>
   conversation_id (h c) \<notin> S \<Longrightarrow> isConversationActive now (h c) \<Longrightarrow>
   \<not> hasRefreshedProfileRecently now (h c) \<Longrightarrow>
   scan_conversations ex now our (c # cs) S h =
     Yield c h # scan_conversations ex now our cs (insert (conversation_id (h c)) S) h"
  by (simp add: scan_Private del: scan_conversations.simps)

lemma scan_Private_skip:
  "conversation_type (h c) = Private \<Longrightarrow>
   \<not> (ex (h c) \<and> (conversation_id (h c) = our \<or> conversation_id (h c) \<notin> S)) \<Longrightarrow>
   \<not> (conversation_id (h c) \<notin> S \<and> isConversationActive now (h c) \<and>
      \<not> hasRefreshedProfileRecently now (h c)) \<Longrightarrow>
   scan_conversations ex now our (c # cs) S h = scan_conversations ex now our cs S h"
  by (auto simp: scan_Private simp del: scan_conversations.simps)

lemma scan_cases [case_names Nil Expired Fresh Skip Group Unknown]:
  assumes "\<And>S h. P [] S h"
    and "\<And>c cs S h. conversation_type (h c) = Private \<Longrightarrow> ex (h c) \<Longrightarrow>
           conversation_id (h c) = our \<or> conversation_id (h c) \<notin> S \<Longrightarrow>
           P cs (insert (conversation_id (h c)) S) (clear_credential h c) \<Longrightarrow> P (c # cs) S h"
    and "\<And>c cs S h. conversation_type (h c) = Private \<Longrightarrow>
           \<not> (ex (h c) \<and> (conversation_id (h c) = our \<or> conversation_id (h c) \<notin> S)) \<Longrightarrow>
           conversation_id (h c) \<notin> S \<Longrightarrow> isConversationActive now (h c) \<Longrightarrow>
           \<not> hasRefreshedProfileRecently now (h c) \<Longrightarrow>
           P cs (insert (conversation_id (h c)) S) h \<Longrightarrow> P (c # cs) S h"
    and "\<And>c cs S h. conversation_type (h c) = Private \<Longrightarrow>
           \<not> (ex (h c) \<and> (conversation_id (h c) = our \<or> conversation_id (h c) \<notin> S)) \<Longrightarrow>
           \<not> (conversation_id (h c) \<notin> S \<and> isConversationActive now (h c) \<and>
              \<not> hasRefreshedProfileRecently now (h c)) \<Longrightarrow>
           P cs S h \<Longrightarrow> P (c # cs) S h"
    and "\<And>c cs S h. conversation_type (h c) = Group \<Longrightarrow>
           P cs (snd (scan_members now h (members (h c)) S)) h \<Longrightarrow> P (c # cs) S h"
    and "\<And>c cs S h t. conversation_type (h c) = Unknown t \<Longrightarrow> P (c # cs) S h"
  shows "P cs0 S0 h0"
proof (induction cs0 arbitrary: h0 S0)
  case Nil
  show ?case by (rule assms(1))
next
  case (Cons c cs)
  show ?case
  proof (cases "conversation_type (h0 c)")
    case Private
    consider
      (a) "ex (h0 c)" "conversation_id (h0 c) = our \<or> conversation_id (h0 c) \<notin> S0"
      | (b) "\<not> (ex (h0 c) \<and> (conversation_id (h0 c) = our \<or> conversation_id (h0 c) \<notin> S0))"
          "conversation_id (h0 c) \<notin> S0" "isConversationActive now (h0 c)"
          "\<not> hasRefreshedProfileRecently now (h0 c)"
      | (c) "\<not> (ex (h0 c) \<and> (conversation_id (h0 c) = our \<or> conversation_id (h0 c) \<notin> S0))"
          "\<not> (conversation_id (h0 c) \<notin> S0 \<and> isConversationActive now (h0 c) \<and>
              \<not> hasRefreshedProfileRecently now (h0 c))"
      by blast
    then show ?thesis
    proof cases
      case a
      show ?thesis by (rule assms(2) [of h0 c S0 cs, OF Private a Cons.IH])
    next
      case b
      show ?thesis by (rule assms(3) [of h0 c S0 cs, OF Private b Cons.IH])
    next
      case c
      show ?thesis by (rule assms(4) [of h0 c S0 cs, OF Private c Cons.IH])
    qed
  next
    case Group
    show ?thesis by (rule assms(5) [of h0 c cs S0, OF Group Cons.IH])
  next
    case (Unknown t)
    then show ?thesis by (rule assms(6))
  qed
qed

lemma scan_append:
  "raised (scan_conversations ex now our xs S h) = None \<Longrightarrow>
   scan_conversations ex now our (xs @ ys) S h =
     scan_conversations ex now our xs S h @
     scan_conversations ex now our ys
       (S \<union> (\<lambda>r. conversation_id (h r)) ` set (yields (scan_conversations ex now our xs S h)))
       (heap_after h (scan_conversations ex now our xs S h))"
proof (induction xs S h rule: scan_cases [where ex = ex and our = our and now = now])
  case (Nil S h)
  then show ?case by simp
next
  case (Expired c cs S h)
  then show ?case
    by (simp add: scan_Private_expired del: scan_conversations.simps)
next
  case (Fresh c cs S h)
  then show ?case
    by (simp add: scan_Private_fresh del: scan_conversations.simps)
next
  case (Skip c cs S h)
  then show ?case
    by (simp add: scan_Private_skip del: scan_conversations.simps)
next
  case (Group c cs S h)
  then show ?case
    using scan_members_seen [of now h "members (h c)" S]
    by (simp add: scan_Group Un_assoc image_Un del: scan_conversations.simps)
next
  case (Unknown c cs S h t)
  then show ?case by simp
qed

lemma take_iter_append:
  "raised e1 = None \<Longrightarrow> length (yields e1) < n \<Longrightarrow>
   take_iter (e1 @ e2) n = e1 @ take_iter e2 (n - length (yields e1))"
proof (induction e1 arbitrary: n)
  case Nil
  then show ?case by simp
next
  case (Cons e e1)
  then obtain k where n: "n = Suc k" by (cases n) auto
  show ?case
  proof (cases e)
    case (Yield r h)
    with Cons n show ?thesis by simp
  next
    case (Throw err)
    with Cons show ?thesis by simp
  qed
qed

subsection \<open>The local identity and duplicates\<close>

lemma scan_our_expired:
  "our \<in> S \<Longrightarrow> r \<in> set (yields (scan_conversations ex now our cs S h)) \<Longrightarrow>
   conversation_id (h r) = our \<Longrightarrow> ex (h r)"
proof (induction cs S h rule: scan_cases [where ex = ex and our = our and now = now])
  case (Nil S h)
  then show ?case by simp
next
  case (Expired c cs S h)
  show ?case
  proof (cases "r = c")
    case True
    with Expired show ?thesis by simp
  next
    case False
    with Expired have "ex (clear_credential h c r)"
      by (simp add: scan_Private_expired del: scan_conversations.simps)
    with False show ?thesis by (simp add: clear_credential_other)
  qed
next
  case (Fresh c cs S h)
  then show ?case
    by (auto simp: scan_Private_fresh simp del: scan_conversations.simps)
next
  case (Skip c cs S h)
  then show ?case
    by (simp add: scan_Private_skip del: scan_conversations.simps)
next
  case (Group c cs S h)
  then show ?case
    using scan_members_fresh [of r now h "members (h c)" S]
      scan_members_seen [of now h "members (h c)" S]
    by (auto simp: scan_Group simp del: scan_conversations.simps)
next
  case (Unknown c cs S h t)
  then show ?case by simp
qed

lemma scan_our_cleared:
  "our \<in> S \<Longrightarrow> Yield r h' \<in> set (scan_conversations ex now our cs S h) \<Longrightarrow>
   conversation_id (h r) = our \<Longrightarrow>
   profileKeyCredential (h' r) = Null \<and> profileKeyCredentialExpiration (h' r) = Null"
proof (induction cs S h rule: scan_cases [where ex = ex and our = our and now = now])
  case (Nil S h)
  then show ?case by simp
next
  case (Expired c cs S h)
  then show ?case
    by (auto simp: scan_Private_expired simp del: scan_conversations.simps)
next
  case (Fresh c cs S h)
  then show ?case
    by (auto simp: scan_Private_fresh simp del: scan_conversations.simps)
next
  case (Skip c cs S h)
  then show ?case
    by (simp add: scan_Private_skip del: scan_conversations.simps)
next
  case (Group c cs S h)
  then show ?case
    using scan_members_fresh [of r now h "members (h c)" S]
      scan_members_seen [of now h "members (h c)" S]
    by (auto simp: scan_Group simp del: scan_conversations.simps)
next
  case (Unknown c cs S h t)
  then show ?case by simp
qed

lemma distinct_map_filter_le1:
  "distinct (map f xs) \<Longrightarrow> length (filter (\<lambda>x. f x = a) xs) \<le> 1"
proof (induction xs)
  case Nil
  then show ?case by simp
next
  case (Cons x xs)
  show ?case
  proof (cases "f x = a")
    case True
    have "filter (\<lambda>x. f x = a) xs = []"
      using Cons.prems True by (auto simp: filter_empty_conv image_iff)
    with True show ?thesis by simp
  next
    case False
    with Cons show ?thesis by simp
  qed
qed

lemma distinct_sortBy_ids:
  assumes "distinct (map g conversations)"
  shows "distinct (map g (sortBy conversations f))"
proof -
  have "mset (map g (sortBy conversations f)) = mset (map g conversations)"
    by (simp add: sortBy_def)
  with assms show ?thesis by (metis mset_eq_imp_distinct_iff)
qed

lemma scan_reaches:
  assumes sorted: "sorted_list = before @ me # after"
    and nodup: "me \<notin> set before"
    and pre_ok: "raised (scan_conversations ex now our before S h) = None"
    and pre_len: "length (yields (scan_conversations ex now our before S h)) < n"
  shows "take_iter (scan_conversations ex now our sorted_list S h) n =
           scan_conversations ex now our before S h @
           take_iter (scan_conversations ex now our (me # after)
               (S \<union> (\<lambda>r. conversation_id (h r)) ` set (yields (scan_conversations ex now our before S h)))
               (heap_after h (scan_conversations ex now our before S h)))
             (n - length (yields (scan_conversations ex now our before S h)))"
    and "heap_after h (scan_conversations ex now our before S h) me = h me"
proof -
  show "take_iter (scan_conversations ex now our sorted_list S h) n =
           scan_conversations ex now our before S h @
           take_iter (scan_conversations ex now our (me # after)
               (S \<union> (\<lambda>r. conversation_id (h r)) ` set (yields (scan_conversations ex now our before S h)))
               (heap_after h (scan_conversations ex now our before S h)))
             (n - length (yields (scan_conversations ex now our before S h)))"
    unfolding sorted scan_append [OF pre_ok] by (rule take_iter_append [OF pre_ok pre_len])
  show "heap_after h (scan_conversations ex now our before S h) me = h me"
  proof (rule heap_after_frame)
    fix r h'
    assume "Yield r h' \<in> set (scan_conversations ex now our before S h)"
    then show "h' me = h me" using nodup by (rule scan_snapshot_frame)
  qed
qed

lemma filter_twice:
  "P c \<Longrightarrow> x \<in> set cs \<Longrightarrow> P x \<Longrightarrow> \<not> length (filter P (c # cs)) \<le> 1"
proof -
  assume "P c" "x \<in> set cs" "P x"
  then have "filter P cs \<noteq> []" by (auto simp: filter_empty_conv)
  then have "0 < length (filter P cs)" by simp
  with \<open>P c\<close> show ?thesis by simp
qed

lemma filter_rest_le1:
  "length (filter P (c # cs)) \<le> 1 \<Longrightarrow> length (filter P cs) \<le> 1"
  by (simp split: if_splits)

lemma length_filter_mset:
  "mset xs = mset ys \<Longrightarrow> length (filter P xs) = length (filter P ys)"
  by (metis mset_filter size_mset)

lemma scan_yields_distinct:
  "our \<in> S \<Longrightarrow> length (filter (\<lambda>c. conversation_id (h c) = our) cs) \<le> 1 \<Longrightarrow>
     distinct (map (\<lambda>c. conversation_id (h c)) (yields (scan_conversations ex now our cs S h)))"
proof (induction cs S h rule: scan_cases [where ex = ex and our = our and now = now])
  case (Nil S h)
  then show ?case by simp
next
  case (Expired c cs S h)
  let ?h' = "clear_credential h c"
  let ?S' = "insert (conversation_id (h c)) S"
  have rest: "distinct (map (\<lambda>c. conversation_id (h c))
                (yields (scan_conversations ex now our cs ?S' ?h')))"
    using Expired.IH Expired.prems filter_rest_le1 [OF Expired.prems(2)] by simp
  have "conversation_id (h r) \<noteq> conversation_id (h c)"
    if r: "r \<in> set (yields (scan_conversations ex now our cs ?S' ?h'))" for r
  proof -
    from scan_yields_ids [of our ?S' r ex now cs ?h'] r Expired.prems(1)
    have "conversation_id (h r) \<notin> ?S' \<or> (conversation_id (h r) = our \<and> r \<in> set cs)" by simp
    then show ?thesis
    proof
      assume "conversation_id (h r) \<notin> ?S'"
      then show ?thesis by auto
    next
      assume a: "conversation_id (h r) = our \<and> r \<in> set cs"
      show ?thesis
      proof
        assume "conversation_id (h r) = conversation_id (h c)"
        with a have "conversation_id (h c) = our" by simp
        from filter_twice [of "\<lambda>c. conversation_id (h c) = our" c r cs, OF this] a Expired.prems(2)
        show False by simp
      qed
    qed
  qed
  then have "conversation_id (h c) \<notin> (\<lambda>c. conversation_id (h c)) `
      set (yields (scan_conversations ex now our cs ?S' ?h'))"
    by force
  with rest Expired.hyps show ?case
    by (simp add: scan_Private_expired del: scan_conversations.simps)
next
  case (Fresh c cs S h)
  let ?S' = "insert (conversation_id (h c)) S"
  have rest: "distinct (map (\<lambda>c. conversation_id (h c))
                (yields (scan_conversations ex now our cs ?S' h)))"
    using Fresh.IH Fresh.prems filter_rest_le1 [OF Fresh.prems(2)] by simp
  have ne: "conversation_id (h c) \<noteq> our" using Fresh.hyps(3) Fresh.prems(1) by auto
  have "conversation_id (h r) \<noteq> conversation_id (h c)"
    if r: "r \<in> set (yields (scan_conversations ex now our cs ?S' h))" for r
  proof -
    from scan_yields_ids [of our ?S' r ex now cs h] r Fresh.prems(1)
    have "conversation_id (h r) \<notin> ?S' \<or> (conversation_id (h r) = our \<and> r \<in> set cs)" by simp
    with ne show ?thesis by auto
  qed
  then have "conversation_id (h c) \<notin> (\<lambda>c. conversation_id (h c)) `
      set (yields (scan_conversations ex now our cs ?S' h))"
    by force
  with rest Fresh.hyps show ?case
    by (simp add: scan_Private_fresh del: scan_conversations.simps)
next
  case (Skip c cs S h)
  then show ?case
    using filter_rest_le1 [OF Skip.prems(2)]
    by (simp add: scan_Private_skip del: scan_conversations.simps)
next
  case (Group c cs S h)
  let ?out = "fst (scan_members now h (members (h c)) S)"
  let ?seen = "snd (scan_members now h (members (h c)) S)"
  have seen: "?seen = S \<union> (\<lambda>m. conversation_id (h m)) ` set ?out"
    by (rule scan_members_seen)
  have d1: "distinct (map (\<lambda>c. conversation_id (h c)) ?out)"
    by (rule scan_members_distinct)
  have our: "our \<in> ?seen" using seen Group.prems(1) by simp
  have d2: "distinct (map (\<lambda>c. conversation_id (h c)) (yields (scan_conversations ex now our cs ?seen h)))"
    using Group.IH our filter_rest_le1 [OF Group.prems(2)] by simp
  have disj: "conversation_id (h a) \<noteq> conversation_id (h b)"
    if a: "a \<in> set ?out" and b: "b \<in> set (yields (scan_conversations ex now our cs ?seen h))" for a b
  proof -
    have "conversation_id (h a) \<notin> S"
      using scan_members_fresh [of a now h "members (h c)" S] a by simp
    with Group.prems(1) have an: "conversation_id (h a) \<noteq> our" by auto
    from scan_yields_ids [OF our b]
    have b': "conversation_id (h b) \<notin> ?seen \<or> conversation_id (h b) = our" by auto
    have "conversation_id (h a) \<in> (\<lambda>m. conversation_id (h m)) ` set ?out"
      using a by (rule imageI)
    then have "conversation_id (h a) \<in> ?seen" using seen by simp
    with an b' show ?thesis by metis
  qed
  show ?case
    using Group.hyps d1 d2 disj
    by (auto simp: scan_Group simp del: scan_conversations.simps)
next
  case (Unknown c cs S h t)
  then show ?case by simp
qed

lemma yields_append: "raised e1 = None \<Longrightarrow> yields (e1 @ e2) = yields e1 @ yields e2"
  by (induction e1 rule: yields.induct) auto

subsection \<open>The pass and the loop\<close>

lemma log_frame [simp]:
  "storage (log_info msg w) = storage w" "clock (log_info msg w) = clock w"
  "heap (log_info msg w) = heap w" "sleeps (log_info msg w) = sleeps w"
  "storage (log_warn msg w) = storage w" "clock (log_warn msg w) = clock w"
  "heap (log_warn msg w) = heap w" "sleeps (log_warn msg w) = sleeps w"
  "storage (log_error msg w) = storage w" "clock (log_error msg w) = clock w"
  "heap (log_error msg w) = heap w" "sleeps (log_error msg w) = sleeps w"
  by (simp_all add: log_info_def log_warn_def log_error_def)

lemma timeUntilNextRefresh_frame [simp]:
  "storage (snd (timeUntilNextRefresh w)) = storage w"
  "clock (snd (timeUntilNextRefresh w)) = clock w"
  "heap (snd (timeUntilNextRefresh w)) = heap w"
  "sleeps (snd (timeUntilNextRefresh w)) = sleeps w"
  by (simp_all add: timeUntilNextRefresh_def Let_def assert_def split: optional.splits js_value.splits)

lemma timeUntilNextRefresh_reads:
  "storage w' = storage w \<Longrightarrow> clock w' = clock w \<Longrightarrow>
   fst (timeUntilNextRefresh w') = fst (timeUntilNextRefresh w)"
  by (simp add: timeUntilNextRefresh_def Let_def split: optional.splits js_value.splits)

lemma timeUntilNextRefresh_nonneg: "0 \<le> fst (timeUntilNextRefresh w)"
  by (simp add: timeUntilNextRefresh_def Let_def split: optional.splits js_value.splits)

lemma add_all_frame_all:
  "storage (snd (add_all evs w)) = storage w \<and> clock (snd (add_all evs w)) = clock w \<and>
   log (snd (add_all evs w)) = log w \<and> sleeps (snd (add_all evs w)) = sleeps w"
proof (induction evs w rule: add_all.induct)
  case (1 w)
  then show ?case by simp
next
  case (2 conversation h evs w)
  then show ?case by (simp add: case_prod_unfold)
next
  case (3 err evs w)
  then show ?case by simp
qed

lemma add_all_frame [simp]:
  "storage (snd (add_all evs w)) = storage w" "clock (snd (add_all evs w)) = clock w"
  "log (snd (add_all evs w)) = log w" "sleeps (snd (add_all evs w)) = sleeps w"
  using add_all_frame_all [of evs w] by simp_all

lemma add_all_result: "fst (add_all evs w) = (raised evs, yields evs)"
  by (induction evs w rule: add_all.induct) (simp_all add: case_prod_unfold)

lemma refreshConversation_frame [simp]:
  "storage (snd (refreshConversation gp c s)) = storage (snd s)"
  "clock (snd (refreshConversation gp c s)) = clock (snd s)"
  "sleeps (snd (refreshConversation gp c s)) = sleeps (snd s)"
  by (simp_all add: refreshConversation_def Let_def case_prod_unfold split: option.splits)

lemma onIdle_frame [simp]:
  "storage (snd (onIdle gp queue s)) = storage (snd s)"
  "clock (snd (onIdle gp queue s)) = clock (snd s)"
  "sleeps (snd (onIdle gp queue s)) = sleeps (snd s)"
  unfolding onIdle_def by (induction queue arbitrary: s, simp_all)+

lemma refreshConversation_fails:
  "fst (gp (uuid (heap (snd s) c)) (e164 (heap (snd s) c)) (heap (snd s))) \<noteq> None \<Longrightarrow>
   fst (refreshConversation gp c s) = (fst s)\<lparr>totalCount := totalCount (fst s) + 1\<rparr>"
  by (auto simp: refreshConversation_def Let_def case_prod_unfold split: option.splits)

lemma onIdle_all_fail:
  "\<forall>u e h. fst (gp u e h) \<noteq> None \<Longrightarrow>
   fst (onIdle gp queue s) = (fst s)\<lparr>totalCount := totalCount (fst s) + length queue\<rparr>"
  unfolding onIdle_def
proof (induction queue arbitrary: s)
  case Nil
  then show ?case by simp
next
  case (Cons c queue)
  have "fst (refreshConversation gp c s) = (fst s)\<lparr>totalCount := totalCount (fst s) + 1\<rparr>"
    using Cons.prems by (intro refreshConversation_fails) simp
  with Cons.IH [OF Cons.prems, of "refreshConversation gp c s"] show ?case by simp
qed

text \<open>Counting the fetches that were started.\<close>

lemma fetches_started_frame [simp]:
  "fetches_started (log_warn msg w) = fetches_started w"
  "fetches_started (log_error msg w) = fetches_started w"
  "fetches_started (w\<lparr>storage := st\<rparr>) = fetches_started w"
  "fetches_started (w\<lparr>heap := h\<rparr>) = fetches_started w"
  "fetches_started (sleep ms w) = fetches_started w"
  by (simp_all add: fetches_started_def log_warn_def log_error_def sleep_def)

lemma fetches_started_log_info:
  "fetches_started (log_info msg w) =
     (if msg = ''routineProfileRefresh: refreshing profile for'' then Suc (fetches_started w)
      else fetches_started w)"
  by (simp add: fetches_started_def log_info_def)

lemma fetches_started_timeUntilNextRefresh [simp]:
  "fetches_started (snd (timeUntilNextRefresh w)) = fetches_started w"
  by (simp add: timeUntilNextRefresh_def Let_def assert_def split: optional.splits js_value.splits)

lemma fetches_started_add_all [simp]:
  "fetches_started (snd (add_all evs w)) = fetches_started w"
  by (simp add: fetches_started_def)



text \<open>A pass that starts: the time is stored, the conversations yielded are fetched, and
  the pass throws what the selection threw.\<close>

lemma routineProfileRefresh_started:
  assumes "fst (timeUntilNextRefresh w) \<le> 0"
  shows "\<exists>w6. storage w6 = (storage w)(STORAGE_KEY := Value (Num (clock w))) \<and>
           clock w6 = clock w \<and> sleeps w6 = sleeps w \<and> fetches_started w6 = fetches_started w \<and>
           routineProfileRefresh expired getProfileFn allConversations ourConversationId w =
             (case raised (getConversationsToRefresh expired (clock w) (heap w)
                     allConversations ourConversationId) of
                Some err \<Rightarrow>
                  (Inl err,
                   snd (onIdle getProfileFn
                          (yields (getConversationsToRefresh expired (clock w) (heap w)
                             allConversations ourConversationId))
                          (\<lparr>totalCount = 0, successCount = 0\<rparr>, w6)))
              | None \<Rightarrow>
                  (Inr (Refreshed (fst (onIdle getProfileFn
                          (yields (getConversationsToRefresh expired (clock w) (heap w)
                             allConversations ourConversationId))
                          (\<lparr>totalCount = 0, successCount = 0\<rparr>, w6)))),
                   log_info ''routineProfileRefresh: successfully refreshed''
                     (snd (onIdle getProfileFn
                          (yields (getConversationsToRefresh expired (clock w) (heap w)
                             allConversations ourConversationId))
                          (\<lparr>totalCount = 0, successCount = 0\<rparr>, w6)))))"
proof -
  let ?w1 = "log_info ''routineProfileRefresh: starting'' w"
  let ?w2 = "snd (timeUntilNextRefresh ?w1)"
  let ?w3 = "log_info ''routineProfileRefresh: updating last refresh time'' ?w2"
  let ?w4 = "?w3\<lparr>storage := (storage ?w3)(STORAGE_KEY := Value (Num (clock ?w3)))\<rparr>"
  let ?w5 = "log_info ''routineProfileRefresh: starting to refresh conversations'' ?w4"
  let ?sel = "getConversationsToRefresh expired (clock w) (heap w) allConversations ourConversationId"
  let ?w6 = "snd (add_all ?sel ?w5)"
  have t: "\<not> fst (timeUntilNextRefresh ?w1) > 0"
    using assms timeUntilNextRefresh_reads [of ?w1 w] by simp
  have frame: "storage ?w6 = (storage w)(STORAGE_KEY := Value (Num (clock w)))"
    "clock ?w6 = clock w" "sleeps ?w6 = sleeps w"
    by simp_all
  have started: "fetches_started ?w6 = fetches_started w"
    by (simp add: fetches_started_log_info)
  have w4: "clock ?w4 = clock w" "heap ?w4 = heap w" by simp_all
  have "routineProfileRefresh expired getProfileFn allConversations ourConversationId w =
             (case raised ?sel of
                Some err \<Rightarrow>
                  (Inl err,
                   snd (onIdle getProfileFn (yields ?sel) (\<lparr>totalCount = 0, successCount = 0\<rparr>, ?w6)))
              | None \<Rightarrow>
                  (Inr (Refreshed (fst (onIdle getProfileFn (yields ?sel)
                          (\<lparr>totalCount = 0, successCount = 0\<rparr>, ?w6)))),
                   log_info ''routineProfileRefresh: successfully refreshed''
                     (snd (onIdle getProfileFn (yields ?sel)
                          (\<lparr>totalCount = 0, successCount = 0\<rparr>, ?w6)))))"
    by (simp only: routineProfileRefresh_def Let_def case_prod_unfold t if_False w4
        add_all_result fst_conv snd_conv)
  with frame started show ?thesis by blast
qed

subsection \<open>Sorting and eligible contacts\<close>

lemma sort_rank_inj: "sort_rank a = sort_rank b \<longleftrightarrow> a = b"
  by (cases a; cases b) auto

lemma sort_rank_le:
  "sort_rank a \<le> sort_rank b \<Longrightarrow>
   (case b of Value y \<Rightarrow> (\<exists>x. a = Value x \<and> x \<le> y) | Null \<Rightarrow> a \<noteq> Undefined | Undefined \<Rightarrow> True)"
  by (cases a; cases b) auto

lemma raised_take_iter_None: "raised evs = None \<Longrightarrow> raised (take_iter evs n) = None"
  by (induction evs n rule: take_iter.induct) auto

lemma scan_all_eligible:
  "\<forall>c \<in> set cs. conversation_type (h c) = Private \<and> conversation_id (h c) \<notin> S \<and>
      isConversationActive now (h c) \<and> \<not> hasRefreshedProfileRecently now (h c) \<Longrightarrow>
   distinct (map (\<lambda>c. conversation_id (h c)) cs) \<Longrightarrow>
   yields (scan_conversations ex now our cs S h) = cs \<and>
   raised (scan_conversations ex now our cs S h) = None"
proof (induction cs S h rule: scan_cases [where ex = ex and our = our and now = now])
  case (Nil S h)
  then show ?case by simp
next
  case (Expired c cs S h)
  have "\<forall>x \<in> set cs. conversation_id (h x) \<noteq> conversation_id (h c)"
    using Expired.prems(2) by (auto simp: image_iff)
  with Expired show ?case
    by (simp add: scan_Private_expired del: scan_conversations.simps)
next
  case (Fresh c cs S h)
  have "\<forall>x \<in> set cs. conversation_id (h x) \<noteq> conversation_id (h c)"
    using Fresh.prems(2) by (auto simp: image_iff)
  with Fresh show ?case
    by (simp add: scan_Private_fresh del: scan_conversations.simps)
next
  case (Skip c cs S h)
  then show ?case by auto
next
  case (Group c cs S h)
  then show ?case by auto
next
  case (Unknown c cs S h t)
  then show ?case by auto
qed

subsection \<open>A throw in the scan\<close>




lemma scan_append_raised:
  "raised (scan_conversations ex now our xs S h) \<noteq> None \<Longrightarrow>
   scan_conversations ex now our (xs @ ys) S h = scan_conversations ex now our xs S h"
proof (induction xs S h rule: scan_cases [where ex = ex and our = our and now = now])
  case (Nil S h)
  then show ?case by simp
next
  case (Expired c cs S h)
  then show ?case
    by (simp add: scan_Private_expired del: scan_conversations.simps)
next
  case (Fresh c cs S h)
  then show ?case
    by (simp add: scan_Private_fresh del: scan_conversations.simps)
next
  case (Skip c cs S h)
  then show ?case
    by (simp add: scan_Private_skip del: scan_conversations.simps)
next
  case (Group c cs S h)
  then show ?case
    by (simp add: scan_Group del: scan_conversations.simps)
next
  case (Unknown c cs S h t)
  then show ?case by simp
qed

lemma take_iter_prefix:
  "raised e1 = None \<Longrightarrow> n \<le> length (yields e1) \<Longrightarrow> take_iter (e1 @ e2) n = take_iter e1 n"
proof (induction e1 arbitrary: n)
  case Nil
  then show ?case by simp
next
  case (Cons e e1)
  show ?case
  proof (cases n)
    case 0
    then show ?thesis by simp
  next
    case (Suc k)
    with Cons show ?thesis by (cases e) simp_all
  qed
qed

text \<open>What lies behind a throw or behind the cap is not scanned.\<close>

lemma scan_not_reached:
  assumes "raised (scan_conversations ex now our before S h) \<noteq> None \<or>
           n \<le> length (yields (scan_conversations ex now our before S h))"
  shows "take_iter (scan_conversations ex now our (before @ rest) S h) n =
         take_iter (scan_conversations ex now our before S h) n"
proof (cases "raised (scan_conversations ex now our before S h)")
  case None
  with assms have "n \<le> length (yields (scan_conversations ex now our before S h))" by simp
  with None show ?thesis
    by (simp add: scan_append take_iter_prefix)
next
  case (Some err)
  then show ?thesis by (simp add: scan_append_raised)
qed


lemma sleep_frame [simp]:
  "storage (sleep ms w) = storage w" "heap (sleep ms w) = heap w" "log (sleep ms w) = log w"
  "clock (sleep ms w) = clock w + max 0 ms" "sleeps (sleep ms w) = sleeps w @ [ms]"
  by (simp_all add: sleep_def)

lemma wait_until_due_frame [simp]:
  "storage (wait_until_due w) = storage w" "heap (wait_until_due w) = heap w"
  "clock (wait_until_due w) = clock w + fst (timeUntilNextRefresh w)"
  "sleeps (wait_until_due w) = sleeps w @ [fst (timeUntilNextRefresh w)]"
  using timeUntilNextRefresh_nonneg [of w]
  by (simp_all add: wait_until_due_def case_prod_unfold Let_def)






lemma crowd_fields:
  "r \<noteq> 0 \<Longrightarrow> conversation_id (crowd r) = replicate r CHR ''c''"
  "r \<noteq> 0 \<Longrightarrow> active_at (crowd r) = Value (today - int r)"
  "r \<noteq> 0 \<Longrightarrow> profileLastFetchedAt (crowd r) = Undefined"
  "conversation_type (crowd r) = Private"
  by (simp_all add: crowd_def contact_def)

lemma selection_frame:
  assumes "m \<notin> set conversations"
    and "hasRefreshedProfileRecently now (h m)"
  shows "m \<notin> set (yields (getConversationsToRefresh expired now h conversations ourConversationId)) \<and>
         heap_after h (getConversationsToRefresh expired now h conversations ourConversationId) m = h m"
proof -
  let ?sorted = "sortBy conversations (\<lambda>c. active_at (h c))"
  let ?evs = "scan_conversations expired now ourConversationId ?sorted {ourConversationId} h"
  have m: "m \<notin> set ?sorted" using assms(1) by simp
  have "m \<notin> set (yields ?evs)"
    using scan_yields_not_recent [of m expired now ourConversationId ?sorted "{ourConversationId}" h]
      m assms(2) by blast
  then have 1: "m \<notin> set (yields (take_iter ?evs 50))"
    by (auto simp: yields_take_iter dest: in_set_takeD)
  have 2: "heap_after h (take_iter ?evs 50) m = h m"
  proof (rule heap_after_frame)
    fix r h' assume "Yield r h' \<in> set (take_iter ?evs 50)"
    then have "Yield r h' \<in> set ?evs" using set_take_iter by blast
    then show "h' m = h m" using m by (rule scan_snapshot_frame)
  qed
  from 1 2 show ?thesis
    by (simp add: getConversationsToRefresh_def getFilteredConversations_def
        MAX_CONVERSATIONS_TO_REFRESH_def)
qed

section \<open>Candidate selection: length and duplicates\<close>

text \<open>
  C1. Whatever the contacts and the local identity, candidate selection
  (\<open>getConversationsToRefresh\<close>) emits at most 50 conversations and no contact id twice.
  A contact set lists a contact once; the proof needs this of the local identity only,
  whose id the guard of the priority rule lets through even when it has been seen.
\<close>

theorem selection_bounded_distinct:
  assumes "length (filter (\<lambda>c. conversation_id (h c) = ourConversationId) conversations) \<le> 1"
  shows "length (yields (getConversationsToRefresh expired now h conversations ourConversationId)) \<le> 50 \<and>
         distinct (map (\<lambda>c. conversation_id (h c))
           (yields (getConversationsToRefresh expired now h conversations ourConversationId)))"
proof -
  let ?sorted = "sortBy conversations (\<lambda>c. active_at (h c))"
  have "mset ?sorted = mset conversations" by (simp add: sortBy_def)
  then have "length (filter (\<lambda>c. conversation_id (h c) = ourConversationId) ?sorted) =
             length (filter (\<lambda>c. conversation_id (h c) = ourConversationId) conversations)"
    by (rule length_filter_mset)
  with assms have "length (filter (\<lambda>c. conversation_id (h c) = ourConversationId) ?sorted) \<le> 1"
    by simp
  then have "distinct (map (\<lambda>c. conversation_id (h c))
      (yields (scan_conversations expired now ourConversationId ?sorted {ourConversationId} h)))"
    by (intro scan_yields_distinct) simp_all
  then show ?thesis
    by (simp add: getConversationsToRefresh_def getFilteredConversations_def yields_take_iter
        MAX_CONVERSATIONS_TO_REFRESH_def distinct_take take_map [symmetric] del: take_map)
qed

theorem selection_bounded_distinct_witness:
  "length (yields (getConversationsToRefresh (expired_at today) today family [0, 1, 2, 3] ''me'')) \<le> 50 \<and>
   distinct (map (\<lambda>c. conversation_id (family c))
     (yields (getConversationsToRefresh (expired_at today) today family [0, 1, 2, 3] ''me''))) \<and>
   yields (getConversationsToRefresh (expired_at today) today family [0, 1, 2, 3] ''me'') = [2, 1, 0]"
proof -
  have d: "length (filter (\<lambda>c. conversation_id (family c) = ''me'') [0, 1, 2, 3]) \<le> 1"
    by (simp add: family_def contact_def)
  have y: "yields (getConversationsToRefresh (expired_at today) today family [0, 1, 2, 3] ''me'') = [2, 1, 0]"
    by code_simp
  from selection_bounded_distinct [OF d, of "expired_at today" today] y
  show ?thesis by simp
qed

section \<open>The throttle: time until the next refresh\<close>

text \<open>
  C2. \<open>timeUntilNextRefresh\<close> returns 0 when nothing (\<^verbatim>\<open>undefined\<close> or \<^verbatim>\<open>null\<close>) is stored under
  the throttle key; it returns \<open>max 0 (stored + 12 hours - now)\<close> when a number is stored;
  and when the stored value is neither, it logs a warning and returns 0. In each case it
  returns a number to the caller; the world changes only by the warning.
\<close>

theorem timeUntilNextRefresh_cases:
  "(isNil (storage w STORAGE_KEY) \<longrightarrow> timeUntilNextRefresh w = (0, w)) \<and>
   (\<forall>n. storage w STORAGE_KEY = Value (Num n) \<longrightarrow>
      timeUntilNextRefresh w = (max 0 (n + 12 * HOUR - clock w), w)) \<and>
   (\<not> isNil (storage w STORAGE_KEY) \<and> \<not> isNormalNumber (storage w STORAGE_KEY) \<longrightarrow>
      timeUntilNextRefresh w =
        (0, w\<lparr>log := log w @
          [(Warn, ''An invalid value was stored in lastAttemptedToRefreshProfilesAt; treating it as nil'')]\<rparr>))"
  by (auto simp: timeUntilNextRefresh_def Let_def MIN_ELAPSED_DURATION_TO_REFRESH_AGAIN_def
        assert_def log_warn_def)

theorem timeUntilNextRefresh_cases_witness:
  "timeUntilNextRefresh (world_at Undefined empty_heap 1000) = (0, world_at Undefined empty_heap 1000) \<and>
   timeUntilNextRefresh (world_at (Value (Num 500)) empty_heap 1000) =
     (43199500, world_at (Value (Num 500)) empty_heap 1000) \<and>
   timeUntilNextRefresh (world_at (Value (Num 500)) empty_heap 50000000) =
     (0, world_at (Value (Num 500)) empty_heap 50000000) \<and>
   fst (timeUntilNextRefresh (world_at (Value (Str ''soon'')) empty_heap 1000)) = 0 \<and>
   log (snd (timeUntilNextRefresh (world_at (Value NaN) empty_heap 1000))) =
     [(Warn, ''An invalid value was stored in lastAttemptedToRefreshProfilesAt; treating it as nil'')]"
  using timeUntilNextRefresh_cases [of "world_at Undefined empty_heap 1000"]
        timeUntilNextRefresh_cases [of "world_at (Value (Num 500)) empty_heap 1000"]
        timeUntilNextRefresh_cases [of "world_at (Value (Num 500)) empty_heap 50000000"]
        timeUntilNextRefresh_cases [of "world_at (Value (Str ''soon'')) empty_heap 1000"]
        timeUntilNextRefresh_cases [of "world_at (Value NaN) empty_heap 1000"]
  by (simp add: world_at_def HOUR_def MINUTE_def)

section \<open>The local identity\<close>

text \<open>
  C3, as stated, fails: with 60 active contacts that sort before it, the local identity,
  although its credential is expired, lies beyond the cap of 50 and is not emitted.
\<close>

theorem local_identity_beyond_cap_counterexample:
  "conversation_id (crowd 0) = ''me'' \<and> conversation_type (crowd 0) = Private \<and>
   expired_at today (crowd 0) \<and> 0 \<in> set [0..<61] \<and>
   length (yields (getConversationsToRefresh (expired_at today) today crowd [0..<61] ''me'')) = 50 \<and>
   0 \<notin> set (yields (getConversationsToRefresh (expired_at today) today crowd [0..<61] ''me''))"
  by code_simp

text \<open>
  C3, amended. The local identity is never emitted unless its credential is expired, and
  whenever it is emitted its two credential fields are \<^verbatim>\<open>null\<close> in the heap at that \<^verbatim>\<open>yield\<close>.
  With the local identity listed at most once: it is emitted at most once; when it is
  listed as an individual conversation with an expired credential and the scan reaches it
  (the scan of the conversations sorted before it does not throw and emits fewer than 50),
  it is emitted; and when the scan does not reach it (the scan of the conversations sorted
  before it throws, or emits 50 or more), no conversation with its id is emitted.
\<close>

theorem local_identity_selection:
  "(\<forall>r \<in> set (yields (getConversationsToRefresh expired now h conversations ourConversationId)).
      conversation_id (h r) = ourConversationId \<longrightarrow> expired (h r)) \<and>
   (\<forall>r h'. Yield r h' \<in> set (getConversationsToRefresh expired now h conversations ourConversationId) \<and>
      conversation_id (h r) = ourConversationId \<longrightarrow>
      profileKeyCredential (h' r) = Null \<and> profileKeyCredentialExpiration (h' r) = Null) \<and>
   (length (filter (\<lambda>c. conversation_id (h c) = ourConversationId) conversations) \<le> 1 \<longrightarrow>
      length (filter (\<lambda>r. conversation_id (h r) = ourConversationId)
         (yields (getConversationsToRefresh expired now h conversations ourConversationId))) \<le> 1 \<and>
      (\<forall>before me after.
         sortBy conversations (\<lambda>c. active_at (h c)) = before @ me # after \<and>
         conversation_id (h me) = ourConversationId \<and> conversation_type (h me) = Private \<and>
         expired (h me) \<and>
         raised (scan_conversations expired now ourConversationId before {ourConversationId} h) = None \<and>
         length (yields (scan_conversations expired now ourConversationId before {ourConversationId} h)) < 50
         \<longrightarrow> me \<in> set (yields (getConversationsToRefresh expired now h conversations ourConversationId))) \<and>
      (\<forall>before me after.
         sortBy conversations (\<lambda>c. active_at (h c)) = before @ me # after \<and>
         conversation_id (h me) = ourConversationId \<and>
         (raised (scan_conversations expired now ourConversationId before {ourConversationId} h) \<noteq> None \<or>
          50 \<le> length (yields (scan_conversations expired now ourConversationId before
                                 {ourConversationId} h)))
         \<longrightarrow> (\<forall>r \<in> set (yields (getConversationsToRefresh expired now h conversations
                                    ourConversationId)).
                conversation_id (h r) \<noteq> ourConversationId)))"
proof -
  let ?our = ourConversationId
  let ?sorted = "sortBy conversations (\<lambda>c. active_at (h c))"
  let ?evs = "scan_conversations expired now ?our ?sorted {?our} h"
  have sel: "getConversationsToRefresh expired now h conversations ?our = take_iter ?evs 50"
    by (simp add: getConversationsToRefresh_def getFilteredConversations_def
        MAX_CONVERSATIONS_TO_REFRESH_def)
  have 1: "expired (h r)"
    if "r \<in> set (yields (take_iter ?evs 50))" "conversation_id (h r) = ?our" for r
  proof -
    from that(1) have "r \<in> set (yields ?evs)"
      by (auto simp: yields_take_iter dest: in_set_takeD)
    with that(2) show ?thesis
      using scan_our_expired [of ?our "{?our}" r expired now ?sorted h] by simp
  qed
  have 2: "profileKeyCredential (h' r) = Null \<and> profileKeyCredentialExpiration (h' r) = Null"
    if "Yield r h' \<in> set (take_iter ?evs 50)" "conversation_id (h r) = ?our" for r h'
  proof -
    from that(1) have "Yield r h' \<in> set ?evs" using set_take_iter by blast
    with that(2) show ?thesis
      using scan_our_cleared [of ?our "{?our}" r h' expired now ?sorted h] by simp
  qed
  have 3: "length (filter (\<lambda>r. conversation_id (h r) = ?our) (yields (take_iter ?evs 50))) \<le> 1 \<and>
      (\<forall>before me after.
         ?sorted = before @ me # after \<and>
         conversation_id (h me) = ?our \<and> conversation_type (h me) = Private \<and> expired (h me) \<and>
         raised (scan_conversations expired now ?our before {?our} h) = None \<and>
         length (yields (scan_conversations expired now ?our before {?our} h)) < 50
         \<longrightarrow> me \<in> set (yields (take_iter ?evs 50))) \<and>
      (\<forall>before me after.
         ?sorted = before @ me # after \<and> conversation_id (h me) = ?our \<and>
         (raised (scan_conversations expired now ?our before {?our} h) \<noteq> None \<or>
          50 \<le> length (yields (scan_conversations expired now ?our before {?our} h)))
         \<longrightarrow> (\<forall>r \<in> set (yields (take_iter ?evs 50)). conversation_id (h r) \<noteq> ?our))"
    if listed: "length (filter (\<lambda>c. conversation_id (h c) = ?our) conversations) \<le> 1"
  proof -
    have "mset ?sorted = mset conversations" by (simp add: sortBy_def)
    then have "length (filter (\<lambda>c. conversation_id (h c) = ?our) ?sorted) =
               length (filter (\<lambda>c. conversation_id (h c) = ?our) conversations)"
      by (rule length_filter_mset)
    with listed have once: "length (filter (\<lambda>c. conversation_id (h c) = ?our) ?sorted) \<le> 1"
      by simp
    have nodup: "conversation_id (h x) \<noteq> ?our"
      if s: "?sorted = before @ me # after" and me: "conversation_id (h me) = ?our"
        and x: "x \<in> set before" for before me after x
    proof
      assume "conversation_id (h x) = ?our"
      with x have "filter (\<lambda>c. conversation_id (h c) = ?our) before \<noteq> []"
        by (auto simp: filter_empty_conv)
      then have "0 < length (filter (\<lambda>c. conversation_id (h c) = ?our) before)" by simp
      with once me show False unfolding s by simp
    qed
    have "distinct (map (\<lambda>c. conversation_id (h c)) (yields ?evs))"
      using once by (intro scan_yields_distinct) simp_all
    then have "distinct (map (\<lambda>c. conversation_id (h c)) (yields (take_iter ?evs 50)))"
      by (simp add: yields_take_iter distinct_take take_map [symmetric] del: take_map)
    then have a: "length (filter (\<lambda>r. conversation_id (h r) = ?our) (yields (take_iter ?evs 50))) \<le> 1"
      by (rule distinct_map_filter_le1)
    have b: "me \<in> set (yields (take_iter ?evs 50))"
      if s: "?sorted = before @ me # after"
        and me: "conversation_id (h me) = ?our" "conversation_type (h me) = Private" "expired (h me)"
        and ok: "raised (scan_conversations expired now ?our before {?our} h) = None"
        and len: "length (yields (scan_conversations expired now ?our before {?our} h)) < 50"
      for before me after
    proof -
      let ?E1 = "scan_conversations expired now ?our before {?our} h"
      let ?h1 = "heap_after h ?E1"
      let ?S1 = "{?our} \<union> (\<lambda>r. conversation_id (h r)) ` set (yields ?E1)"
      have "me \<notin> set before" using nodup [OF s me(1)] me(1) by blast
      note reach = scan_reaches [OF s this ok len]
      have h1: "?h1 me = h me" by (rule reach(2))
      obtain k where k: "50 - length (yields ?E1) = Suc k"
        using len by (cases "50 - length (yields ?E1)") auto
      have "scan_conversations expired now ?our (me # after) ?S1 ?h1 =
              Yield me (clear_credential ?h1 me) #
              scan_conversations expired now ?our after (insert (conversation_id (?h1 me)) ?S1)
                (clear_credential ?h1 me)"
        by (rule scan_Private_expired) (simp_all add: h1 me)
      with reach(1) k have "take_iter ?evs 50 =
          ?E1 @ Yield me (clear_credential ?h1 me) #
            take_iter (scan_conversations expired now ?our after
              (insert (conversation_id (?h1 me)) ?S1) (clear_credential ?h1 me)) k"
        by simp
      then show ?thesis
        by (simp add: yields_append [OF ok])
    qed
    have c: "conversation_id (h r) \<noteq> ?our"
      if s: "?sorted = before @ me # after" and me: "conversation_id (h me) = ?our"
        and cut: "raised (scan_conversations expired now ?our before {?our} h) \<noteq> None \<or>
                  50 \<le> length (yields (scan_conversations expired now ?our before {?our} h))"
        and r: "r \<in> set (yields (take_iter ?evs 50))"
      for before me after r
    proof
      assume our: "conversation_id (h r) = ?our"
      let ?E1 = "scan_conversations expired now ?our before {?our} h"
      have "take_iter ?evs 50 = take_iter ?E1 50"
        unfolding s using cut by (rule scan_not_reached)
      with r have "r \<in> set (yields ?E1)"
        by (auto simp: yields_take_iter dest: in_set_takeD)
      from scan_yields_ids [of ?our "{?our}" r expired now before h] this our
      have "r \<in> set before" by simp
      from nodup [OF s me this] our show False by simp
    qed
    from a b c show ?thesis by blast
  qed
  from 1 2 3 show ?thesis unfolding sel by blast
qed

theorem local_identity_selection_witness:
  "expired_at today (family 0) \<and>
   0 \<in> set (yields (getConversationsToRefresh (expired_at today) today family [0, 1, 2, 3] ''me'')) \<and>
   length (filter (\<lambda>r. conversation_id (family r) = ''me'')
     (yields (getConversationsToRefresh (expired_at today) today family [0, 1, 2, 3] ''me''))) \<le> 1 \<and>
   0 \<notin> set (yields (getConversationsToRefresh (expired_at today) today crowd [0..<61] ''me''))"
proof -
  have d: "length (filter (\<lambda>c. conversation_id (family c) = ''me'') [0, 1, 2, 3]) \<le> 1"
    by (simp add: family_def contact_def)
  have s: "sortBy [0, 1, 2, 3] (\<lambda>c. active_at (family c)) = [3, 1] @ 0 # [2]" by code_simp
  have me: "conversation_id (family 0) = ''me''" "conversation_type (family 0) = Private"
    "expired_at today (family 0)"
    by (simp_all add: family_def contact_def expired_at_def today_def)
  have ok: "raised (scan_conversations (expired_at today) today ''me'' [3, 1] {''me''} family) = None"
    by code_simp
  have len: "length (yields (scan_conversations (expired_at today) today ''me'' [3, 1] {''me''} family)) < 50"
    by code_simp
  have dc: "length (filter (\<lambda>c. conversation_id (crowd c) = ''me'') [0..<61]) \<le> 1"
    by code_simp
  have sc: "sortBy [0..<61] (\<lambda>c. active_at (crowd c)) = rev [1..<61] @ 0 # []"
    by code_simp
  have mc: "conversation_id (crowd 0) = ''me''" by (simp add: crowd_def contact_def)
  have cut: "50 \<le> length (yields (scan_conversations (expired_at today) today ''me''
                                    (rev [1..<61]) {''me''} crowd))"
    by code_simp
  have "0 \<in> set (yields (getConversationsToRefresh (expired_at today) today family [0, 1, 2, 3] ''me'')) \<and>
        length (filter (\<lambda>r. conversation_id (family r) = ''me'')
          (yields (getConversationsToRefresh (expired_at today) today family [0, 1, 2, 3] ''me''))) \<le> 1"
    using local_identity_selection [of "expired_at today" today family "[0, 1, 2, 3]" "''me''"]
      d s me ok len by blast
  moreover have "\<forall>r \<in> set (yields (getConversationsToRefresh (expired_at today) today crowd
                                     [0..<61] ''me'')).
                   conversation_id (crowd r) \<noteq> ''me''"
    using local_identity_selection [of "expired_at today" today crowd "[0..<61]" "''me''"]
      dc sc mc cut by blast
  ultimately show ?thesis using me(3) mc by blast
qed

section \<open>Sixty eligible contacts\<close>

text \<open>
  C4. Given 60 individual contacts with distinct ids, none the local identity, all active
  within 30 days and none refreshed within 24 hours, with pairwise distinct activity
  timestamps, candidate selection completes and emits exactly 50 of them, and every
  contact emitted has a smaller activity timestamp than every contact left out.
\<close>

theorem oldest_fifty_selected:
  assumes "length conversations = 60"
    and "distinct (map (\<lambda>c. conversation_id (h c)) conversations)"
    and "\<forall>c \<in> set conversations. conversation_type (h c) = Private \<and>
           conversation_id (h c) \<noteq> ourConversationId \<and>
           isConversationActive now (h c) \<and> \<not> hasRefreshedProfileRecently now (h c)"
    and "distinct (map (\<lambda>c. active_at (h c)) conversations)"
  shows "raised (getConversationsToRefresh expired now h conversations ourConversationId) = None \<and>
         length (yields (getConversationsToRefresh expired now h conversations ourConversationId)) = 50 \<and>
         distinct (yields (getConversationsToRefresh expired now h conversations ourConversationId)) \<and>
         set (yields (getConversationsToRefresh expired now h conversations ourConversationId))
           \<subseteq> set conversations \<and>
         (\<forall>a \<in> set (yields (getConversationsToRefresh expired now h conversations ourConversationId)).
          \<forall>b \<in> set conversations -
                 set (yields (getConversationsToRefresh expired now h conversations ourConversationId)).
            \<exists>x y. active_at (h a) = Value x \<and> active_at (h b) = Value y \<and> x < y)"
proof -
  let ?f = "\<lambda>c. active_at (h c)"
  let ?s = "sortBy conversations ?f"
  let ?evs = "scan_conversations expired now ourConversationId ?s {ourConversationId} h"
  have sel: "getConversationsToRefresh expired now h conversations ourConversationId = take_iter ?evs 50"
    by (simp add: getConversationsToRefresh_def getFilteredConversations_def
        MAX_CONVERSATIONS_TO_REFRESH_def)
  have set_s: "set ?s = set conversations" by simp
  have len_s: "length ?s = 60" using assms(1) by (simp add: sortBy_def)
  have dist_ids: "distinct (map (\<lambda>c. conversation_id (h c)) ?s)"
    using assms(2) by (rule distinct_sortBy_ids)
  have dist_ts: "distinct (map ?f ?s)"
    using assms(4) by (rule distinct_sortBy_ids)
  have elig: "\<forall>c \<in> set ?s. conversation_type (h c) = Private \<and>
      conversation_id (h c) \<notin> {ourConversationId} \<and>
      isConversationActive now (h c) \<and> \<not> hasRefreshedProfileRecently now (h c)"
    using assms(3) by simp
  from scan_all_eligible [OF elig dist_ids]
  have ys: "yields ?evs = ?s" and ok: "raised ?evs = None" by simp_all
  have out: "yields (take_iter ?evs 50) = take 50 ?s"
    by (simp add: yields_take_iter ys)
  have dist_s: "distinct ?s" using dist_ids by (simp add: distinct_map)
  have 1: "raised (take_iter ?evs 50) = None" using ok by (rule raised_take_iter_None)
  have 2: "length (take 50 ?s) = 50" using len_s by simp
  have 3: "distinct (take 50 ?s)" using dist_s by simp
  have 4: "set (take 50 ?s) \<subseteq> set conversations"
    using set_take_subset [of 50 ?s] by simp
  have 5: "\<exists>x y. ?f a = Value x \<and> ?f b = Value y \<and> x < y"
    if a: "a \<in> set (take 50 ?s)" and b: "b \<in> set conversations - set (take 50 ?s)" for a b
  proof -
    have split: "?s = take 50 ?s @ drop 50 ?s" by simp
    have "b \<in> set ?s" using b by simp
    then have "b \<in> set (take 50 ?s) \<or> b \<in> set (drop 50 ?s)"
      by (subst (asm) split) (simp only: set_append Un_iff)
    with b have bd: "b \<in> set (drop 50 ?s)" by simp
    have "sorted (map (\<lambda>c. sort_rank (?f c)) ?s)" by (simp add: sortBy_def)
    then have "sorted (map (\<lambda>c. sort_rank (?f c)) (take 50 ?s) @ map (\<lambda>c. sort_rank (?f c)) (drop 50 ?s))"
      by (simp only: map_append [symmetric] append_take_drop_id)
    with a bd have le: "sort_rank (?f a) \<le> sort_rank (?f b)"
      by (auto simp: sorted_append)
    have "a \<in> set conversations" using a 4 by blast
    with assms(3) obtain x where x: "?f a = Value x"
      by (cases "?f a") (auto simp: isConversationActive_def)
    from b assms(3) obtain y where y: "?f b = Value y"
      by (cases "?f b") (auto simp: isConversationActive_def)
    have "a \<noteq> b" using a b by auto
    moreover have "a \<in> set ?s" using a by (rule in_set_takeD)
    ultimately have "?f a \<noteq> ?f b"
      using dist_ts \<open>b \<in> set ?s\<close> by (auto simp: distinct_map inj_on_def)
    with le x y show ?thesis by auto
  qed
  from 1 2 3 4 5 show ?thesis unfolding sel out by blast
qed

theorem oldest_fifty_selected_witness:
  "raised (getConversationsToRefresh (expired_at today) today crowd [1..<61] ''me'') = None \<and>
   length (yields (getConversationsToRefresh (expired_at today) today crowd [1..<61] ''me'')) = 50 \<and>
   distinct (yields (getConversationsToRefresh (expired_at today) today crowd [1..<61] ''me''))"
proof -
  have l: "length [1..<61] = 60" by simp
  have ids: "distinct (map (\<lambda>c. conversation_id (crowd c)) [1..<61])"
  proof -
    have "inj_on (\<lambda>c. conversation_id (crowd c)) (set [1..<61])"
    proof (rule inj_onI)
      fix x y assume "x \<in> set [1..<61]" "y \<in> set [1..<61]"
        and eq: "conversation_id (crowd x) = conversation_id (crowd y)"
      then have "replicate x CHR ''c'' = replicate y CHR ''c''"
        by (simp add: crowd_fields)
      then have "length (replicate x CHR ''c'') = length (replicate y CHR ''c'')" by simp
      then show "x = y" by simp
    qed
    then show ?thesis by (simp add: distinct_map)
  qed
  have el: "\<forall>c \<in> set [1..<61]. conversation_type (crowd c) = Private \<and>
           conversation_id (crowd c) \<noteq> ''me'' \<and>
           isConversationActive today (crowd c) \<and> \<not> hasRefreshedProfileRecently today (crowd c)"
  proof
    fix c assume "c \<in> set [1..<61]"
    then have c: "c \<noteq> 0" "c < 61" by auto
    then obtain k where k: "c = Suc k" by (cases c) auto
    have "conversation_id (crowd c) \<noteq> ''me''"
      using c(1) by (simp add: crowd_fields k)
    moreover have "isConversationActive today (crowd c)"
      using c by (simp add: crowd_fields isConversationActive_def today_def
          MAX_AGE_TO_BE_CONSIDERED_ACTIVE_def MONTH_def DAY_def HOUR_def MINUTE_def)
    moreover have "\<not> hasRefreshedProfileRecently today (crowd c)"
      using c by (simp add: crowd_fields hasRefreshedProfileRecently_def)
    ultimately show "conversation_type (crowd c) = Private \<and>
           conversation_id (crowd c) \<noteq> ''me'' \<and>
           isConversationActive today (crowd c) \<and> \<not> hasRefreshedProfileRecently today (crowd c)"
      by (simp add: crowd_fields)
  qed
  have ts: "distinct (map (\<lambda>c. active_at (crowd c)) [1..<61])"
  proof -
    have "inj_on (\<lambda>c. active_at (crowd c)) (set [1..<61])"
      by (rule inj_onI) (simp add: crowd_fields)
    then show ?thesis by (simp add: distinct_map)
  qed
  from oldest_fifty_selected [OF l ids el ts, of "expired_at today"]
  show ?thesis by blast
qed

section \<open>The order of the scan\<close>

text \<open>
  C5, as stated, fails: a contact without an activity timestamp does not sort before the
  contacts that have one. Here bob has none and is listed first, alice has one, and the
  scan takes alice first.
\<close>

theorem sortBy_undefined_first_counterexample:
  "active_at (family 2) = Undefined \<and> active_at (family 1) = Value 4000000000 \<and>
   sortBy [2, 1] (\<lambda>c. active_at (family c)) = [1, 2]"
  by code_simp

text \<open>
  C5, amended. The scan runs over the contacts sorted by activity timestamp, ascending,
  where a contact without a timestamp comes after every contact that has one (\<^verbatim>\<open>null\<close>
  before \<^verbatim>\<open>undefined\<close>), and contacts with equal values keep their input order.
\<close>

theorem sortBy_ascending_stable:
  "getFilteredConversations expired now h conversations ourConversationId =
     scan_conversations expired now ourConversationId
       (sortBy conversations (\<lambda>c. active_at (h c))) {ourConversationId} h \<and>
   mset (sortBy conversations (\<lambda>c. active_at (h c))) = mset conversations \<and>
   sorted_wrt (\<lambda>a b. case active_at (h b) of
                 Value y \<Rightarrow> (\<exists>x. active_at (h a) = Value x \<and> x \<le> y)
               | Null \<Rightarrow> active_at (h a) \<noteq> Undefined
               | Undefined \<Rightarrow> True)
     (sortBy conversations (\<lambda>c. active_at (h c))) \<and>
   (\<forall>k. filter (\<lambda>c. active_at (h c) = k) (sortBy conversations (\<lambda>c. active_at (h c))) =
        filter (\<lambda>c. active_at (h c) = k) conversations)"
proof -
  let ?f = "\<lambda>c. active_at (h c)"
  let ?key = "\<lambda>c. sort_rank (?f c)"
  have 1: "mset (sortBy conversations ?f) = mset conversations"
    by (simp add: sortBy_def)
  have "sorted (map ?key (sortBy conversations ?f))"
    by (simp add: sortBy_def)
  then have "sorted_wrt (\<lambda>a b. ?key a \<le> ?key b) (sortBy conversations ?f)"
    by (simp add: sorted_map)
  then have 2: "sorted_wrt (\<lambda>a b. case ?f b of
                 Value y \<Rightarrow> (\<exists>x. ?f a = Value x \<and> x \<le> y)
               | Null \<Rightarrow> ?f a \<noteq> Undefined
               | Undefined \<Rightarrow> True) (sortBy conversations ?f)"
    by (rule sorted_wrt_mono_rel [rotated]) (rule sort_rank_le)
  have 3: "filter (\<lambda>c. ?f c = k) (sortBy conversations ?f) = filter (\<lambda>c. ?f c = k) conversations" for k
    using sort_key_stable [of ?key "sort_rank k" conversations]
    by (simp add: sortBy_def sort_rank_inj)
  from 1 2 3 show ?thesis
    by (simp add: getFilteredConversations_def)
qed

theorem sortBy_ascending_stable_witness:
  "mset (sortBy [2, 1, 0, 3] (\<lambda>c. active_at (family c))) = mset [2, 1, 0, 3] \<and>
   sortBy [2, 1, 0, 3] (\<lambda>c. active_at (family c)) = [3, 1, 0, 2]"
proof -
  have "sortBy [2, 1, 0, 3] (\<lambda>c. active_at (family c)) = [3, 1, 0, 2]" by code_simp
  with sortBy_ascending_stable [of "expired_at today" today family "[2, 1, 0, 3]" "''me''"]
  show ?thesis by simp
qed

section \<open>Group members\<close>

text \<open>
  C6. When the scan reaches a group, whatever has been seen so far and whatever follows:
  at its turn in the loop a member is emitted exactly when its id is not in the seen set
  (the ids seen when the group was reached and those of the members emitted before it)
  and its last profile fetch is not within 24 hours of now. So for a group of distinct
  contacts the scan emits exactly the members not seen before the group and not refreshed
  recently, in their order, and goes on with them added to the seen set. The activity of a
  member plays no part: a member that is not active is emitted too.
\<close>

theorem group_members_emitted:
  assumes "conversation_type (h g) = Group"
  shows "(\<forall>before m after. members (h g) = before @ m # after \<longrightarrow>
            scan_conversations expired now ourConversationId (g # rest) seen h =
              map (\<lambda>x. Yield x h) (fst (scan_members now h before seen)) @
              (if conversation_id (h m) \<notin> snd (scan_members now h before seen) \<and>
                  \<not> hasRefreshedProfileRecently now (h m)
               then [Yield m h] else []) @
              map (\<lambda>x. Yield x h)
                (fst (scan_members now h after (snd (scan_members now h (before @ [m]) seen)))) @
              scan_conversations expired now ourConversationId rest
                (snd (scan_members now h (members (h g)) seen)) h \<and>
            snd (scan_members now h before seen) =
              seen \<union> (\<lambda>x. conversation_id (h x)) ` set (fst (scan_members now h before seen))) \<and>
         (distinct (map (\<lambda>m. conversation_id (h m)) (members (h g))) \<longrightarrow>
            scan_conversations expired now ourConversationId (g # rest) seen h =
              map (\<lambda>m. Yield m h)
                (filter (\<lambda>m. conversation_id (h m) \<notin> seen \<and> \<not> hasRefreshedProfileRecently now (h m))
                   (members (h g))) @
              scan_conversations expired now ourConversationId rest
                (seen \<union> (\<lambda>m. conversation_id (h m)) `
                   set (filter (\<lambda>m. conversation_id (h m) \<notin> seen \<and>
                                   \<not> hasRefreshedProfileRecently now (h m)) (members (h g)))) h \<and>
            (\<forall>m \<in> set (members (h g)).
               conversation_id (h m) \<notin> seen \<and> \<not> hasRefreshedProfileRecently now (h m) \<and>
               \<not> isConversationActive now (h m) \<longrightarrow>
               Yield m h \<in> set (scan_conversations expired now ourConversationId (g # rest) seen h)))"
proof -
  have step: "scan_conversations expired now ourConversationId (g # rest) seen h =
      map (\<lambda>x. Yield x h) (fst (scan_members now h (members (h g)) seen)) @
      scan_conversations expired now ourConversationId rest
        (snd (scan_members now h (members (h g)) seen)) h"
    using assms by (rule scan_Group)
  have positional: "scan_conversations expired now ourConversationId (g # rest) seen h =
              map (\<lambda>x. Yield x h) (fst (scan_members now h before seen)) @
              (if conversation_id (h m) \<notin> snd (scan_members now h before seen) \<and>
                  \<not> hasRefreshedProfileRecently now (h m)
               then [Yield m h] else []) @
              map (\<lambda>x. Yield x h)
                (fst (scan_members now h after (snd (scan_members now h (before @ [m]) seen)))) @
              scan_conversations expired now ourConversationId rest
                (snd (scan_members now h (members (h g)) seen)) h"
    if ms: "members (h g) = before @ m # after" for before m after
  proof -
    have "fst (scan_members now h (before @ m # after) seen) =
        fst (scan_members now h before seen) @
        (if conversation_id (h m) \<notin> snd (scan_members now h before seen) \<and>
            \<not> hasRefreshedProfileRecently now (h m)
         then [m] else []) @
        fst (scan_members now h after (snd (scan_members now h (before @ [m]) seen)))"
      by (simp add: scan_members_append [of now h before] scan_members_Cons
          del: scan_members.simps(2))
    then show ?thesis unfolding step ms by simp
  qed
  have filtered: "scan_conversations expired now ourConversationId (g # rest) seen h =
           map (\<lambda>m. Yield m h)
             (filter (\<lambda>m. conversation_id (h m) \<notin> seen \<and> \<not> hasRefreshedProfileRecently now (h m))
                (members (h g))) @
           scan_conversations expired now ourConversationId rest
             (seen \<union> (\<lambda>m. conversation_id (h m)) `
                set (filter (\<lambda>m. conversation_id (h m) \<notin> seen \<and>
                                \<not> hasRefreshedProfileRecently now (h m)) (members (h g)))) h"
    if d: "distinct (map (\<lambda>m. conversation_id (h m)) (members (h g)))"
  proof -
    have f: "fst (scan_members now h (members (h g)) seen) =
        filter (\<lambda>m. conversation_id (h m) \<notin> seen \<and> \<not> hasRefreshedProfileRecently now (h m))
          (members (h g))"
      using d by (rule scan_members_filter)
    show ?thesis
      unfolding step using scan_members_seen [of now h "members (h g)" seen] f by simp
  qed
  have inactive: "Yield m h \<in> set (scan_conversations expired now ourConversationId (g # rest) seen h)"
    if "distinct (map (\<lambda>m. conversation_id (h m)) (members (h g)))" "m \<in> set (members (h g))"
      "conversation_id (h m) \<notin> seen" "\<not> hasRefreshedProfileRecently now (h m)" for m
    unfolding filtered [OF that(1)] using that(2-4) by simp
  show ?thesis
    using positional scan_members_seen [of now h _ seen] filtered inactive by blast
qed

theorem group_members_emitted_witness:
  "scan_conversations (expired_at today) today ''me'' [3] {''me''} family = [Yield 2 family] \<and>
   members (family 3) = [0, 1, 2, 4] \<and> \<not> isConversationActive today (family 2)"
proof -
  have g: "conversation_type (family 3) = Group" by (simp add: family_def contact_def)
  have d: "distinct (map (\<lambda>m. conversation_id (family m)) (members (family 3)))"
    by (simp add: family_def contact_def)
  have m: "members (family 3) = [0, 1, 2, 4]" by (simp add: family_def contact_def)
  have f: "filter (\<lambda>m. conversation_id (family m) \<notin> {''me''} \<and>
                    \<not> hasRefreshedProfileRecently today (family m)) [0, 1, 2, 4] = [2]"
    by (simp add: family_def contact_def hasRefreshedProfileRecently_def today_def
        MAX_AGE_TO_BE_CONSIDERED_RECENTLY_REFRESHED_def DAY_def HOUR_def MINUTE_def)
  have a: "\<not> isConversationActive today (family 2)"
    by (simp add: family_def contact_def isConversationActive_def)
  from group_members_emitted
         [where h = family and g = 3 and expired = "expired_at today" and now = today
            and ourConversationId = "''me''" and rest = "[]" and seen = "{''me''}", OF g] d
  have "scan_conversations (expired_at today) today ''me'' [3] {''me''} family =
          map (\<lambda>m. Yield m family)
            (filter (\<lambda>m. conversation_id (family m) \<notin> {''me''} \<and>
                         \<not> hasRefreshedProfileRecently today (family m)) (members (family 3))) @
          scan_conversations (expired_at today) today ''me'' []
            ({''me''} \<union> (\<lambda>m. conversation_id (family m)) `
               set (filter (\<lambda>m. conversation_id (family m) \<notin> {''me''} \<and>
                                \<not> hasRefreshedProfileRecently today (family m)) (members (family 3))))
            family"
    by blast
  then show ?thesis unfolding m f using a by simp
qed

section \<open>A pass in which every fetch fails\<close>

text \<open>
  C7. When a pass starts, selection yields its conversations without throwing and every
  fetch rejects, \<open>routineProfileRefresh\<close> returns normally with \<open>totalCount\<close> the number of
  conversations selected and \<open>successCount\<close> 0.
\<close>

theorem all_fetches_fail:
  assumes "fst (timeUntilNextRefresh w) \<le> 0"
    and "raised (getConversationsToRefresh expired (clock w) (heap w) allConversations ourConversationId) = None"
    and "\<forall>u e h. fst (getProfileFn u e h) \<noteq> None"
  shows "fst (routineProfileRefresh expired getProfileFn allConversations ourConversationId w) =
           Inr (Refreshed \<lparr>totalCount =
                  length (yields (getConversationsToRefresh expired (clock w) (heap w)
                            allConversations ourConversationId)),
                successCount = 0\<rparr>)"
proof -
  let ?sel = "getConversationsToRefresh expired (clock w) (heap w) allConversations ourConversationId"
  from routineProfileRefresh_started [OF assms(1), of expired getProfileFn allConversations
      ourConversationId]
  obtain w6 where eq: "routineProfileRefresh expired getProfileFn allConversations ourConversationId w =
             (case raised ?sel of
                Some err \<Rightarrow>
                  (Inl err,
                   snd (onIdle getProfileFn (yields ?sel) (\<lparr>totalCount = 0, successCount = 0\<rparr>, w6)))
              | None \<Rightarrow>
                  (Inr (Refreshed (fst (onIdle getProfileFn (yields ?sel)
                          (\<lparr>totalCount = 0, successCount = 0\<rparr>, w6)))),
                   log_info ''routineProfileRefresh: successfully refreshed''
                     (snd (onIdle getProfileFn (yields ?sel)
                          (\<lparr>totalCount = 0, successCount = 0\<rparr>, w6)))))"
    by blast
  show ?thesis
    unfolding eq assms(2) by (simp add: onIdle_all_fail [OF assms(3)])
qed

theorem all_fetches_fail_witness:
  "fst (routineProfileRefresh (expired_at today) offline [0, 1, 2, 3] ''me''
          (world_at Undefined family today)) =
     Inr (Refreshed \<lparr>totalCount = 3, successCount = 0\<rparr>)"
proof -
  let ?w = "world_at Undefined family today"
  have w: "clock ?w = today" "heap ?w = family" by (simp_all add: world_at_def)
  have t: "fst (timeUntilNextRefresh ?w) \<le> 0"
    by (simp add: timeUntilNextRefresh_def world_at_def)
  have y: "yields (getConversationsToRefresh (expired_at today) today family [0, 1, 2, 3] ''me'') = [2, 1, 0]"
    by code_simp
  have r: "raised (getConversationsToRefresh (expired_at today) today family [0, 1, 2, 3] ''me'') = None"
    by code_simp
  have f: "\<forall>u e h. fst (offline u e h) \<noteq> None" by (simp add: offline_def)
  from all_fetches_fail [of ?w "expired_at today" "[0, 1, 2, 3]" "''me''" offline] t r f
  show ?thesis unfolding w y by simp
qed

section \<open>A conversation of unknown kind\<close>




section \<open>A pass that starts consumes the cooldown\<close>

text \<open>
  C9. \<open>routineProfileRefresh\<close> stores the current time under the throttle key before
  selection runs: once a pass has started (the time until the next refresh is 0), the
  stored time is the time of this pass whether the pass completes or throws, and the next
  refresh is 12 hours away.
\<close>

theorem started_pass_consumes_cooldown:
  assumes "fst (timeUntilNextRefresh w) = 0"
  shows "storage (snd (routineProfileRefresh expired getProfileFn allConversations ourConversationId w))
           STORAGE_KEY = Value (Num (clock w)) \<and>
         fst (timeUntilNextRefresh
           (snd (routineProfileRefresh expired getProfileFn allConversations ourConversationId w))) =
           12 * HOUR"
proof -
  let ?sel = "getConversationsToRefresh expired (clock w) (heap w) allConversations ourConversationId"
  let ?res = "routineProfileRefresh expired getProfileFn allConversations ourConversationId w"
  from assms have "fst (timeUntilNextRefresh w) \<le> 0" by simp
  from routineProfileRefresh_started [OF this, of expired getProfileFn allConversations
      ourConversationId]
  obtain w6 where w6: "storage w6 = (storage w)(STORAGE_KEY := Value (Num (clock w)))"
      "clock w6 = clock w"
    and eq: "?res =
             (case raised ?sel of
                Some err \<Rightarrow>
                  (Inl err,
                   snd (onIdle getProfileFn (yields ?sel) (\<lparr>totalCount = 0, successCount = 0\<rparr>, w6)))
              | None \<Rightarrow>
                  (Inr (Refreshed (fst (onIdle getProfileFn (yields ?sel)
                          (\<lparr>totalCount = 0, successCount = 0\<rparr>, w6)))),
                   log_info ''routineProfileRefresh: successfully refreshed''
                     (snd (onIdle getProfileFn (yields ?sel)
                          (\<lparr>totalCount = 0, successCount = 0\<rparr>, w6)))))"
    by blast
  have s: "storage (snd ?res) = storage w6" and c: "clock (snd ?res) = clock w6"
    unfolding eq by (cases "raised ?sel"; simp)+
  have "storage (snd ?res) STORAGE_KEY = Value (Num (clock w))" "clock (snd ?res) = clock w"
    using s c w6 by simp_all
  moreover have "(0::int) \<le> 12 * HOUR" by (simp add: HOUR_def MINUTE_def)
  ultimately show ?thesis
    by (simp add: timeUntilNextRefresh_def Let_def MIN_ELAPSED_DURATION_TO_REFRESH_AGAIN_def)
qed

theorem started_pass_consumes_cooldown_witness:
  "fst (routineProfileRefresh (expired_at today) offline [5] ''me'' (world_at Undefined family today)) =
     Inl (MissingCaseError ''channel'') \<and>
   storage (snd (routineProfileRefresh (expired_at today) offline [5] ''me''
                   (world_at Undefined family today))) STORAGE_KEY = Value (Num today) \<and>
   fst (timeUntilNextRefresh
          (snd (routineProfileRefresh (expired_at today) offline [5] ''me''
                  (world_at Undefined family today)))) = 43200000"
proof -
  let ?w = "world_at Undefined family today"
  have t: "fst (timeUntilNextRefresh ?w) = 0"
    by (simp add: timeUntilNextRefresh_def world_at_def)
  have c: "clock ?w = today" by (simp add: world_at_def)
  have e: "fst (routineProfileRefresh (expired_at today) offline [5] ''me'' ?w) =
     Inl (MissingCaseError ''channel'')"
    by code_simp
  from started_pass_consumes_cooldown [OF t, of "expired_at today" offline "[5]" "''me''"] e c
  show ?thesis by (simp add: HOUR_def MINUTE_def)
qed

section \<open>No override for group members\<close>

text \<open>
  C10, as stated, fails: alice is a member of the group, her credential is expired and her
  profile was fetched within the last 24 hours, but she is also scanned directly as an
  individual conversation, so candidate selection emits her and sets her credential to
  \<^verbatim>\<open>null\<close>.
\<close>

theorem group_member_override_counterexample:
  "conversation_type (family 3) = Group \<and> 1 \<in> set (members (family 3)) \<and>
   expired_at today (family 1) \<and> hasRefreshedProfileRecently today (family 1) \<and>
   1 \<in> set (yields (getConversationsToRefresh (expired_at today) today family [0, 1, 2, 3] ''me'')) \<and>
   profileKeyCredential (family 1) = Value ''credential'' \<and>
   profileKeyCredential
     (heap_after family (getConversationsToRefresh (expired_at today) today family [0, 1, 2, 3] ''me'') 1) =
     Null"
  by code_simp

text \<open>
  C10, amended. For a member refreshed within the last 24 hours, expired credential or not:
  the scan of a group does not emit it and yields with the heap unchanged; and candidate
  selection as a whole neither emits it nor changes its attributes, provided it is not
  itself among the conversations scanned directly.
\<close>

theorem recent_member_not_overridden:
  assumes "hasRefreshedProfileRecently now (h m)"
  shows "(conversation_type (h g) = Group \<longrightarrow>
            scan_conversations expired now ourConversationId (g # rest) seen h =
              map (\<lambda>member. Yield member h) (fst (scan_members now h (members (h g)) seen)) @
              scan_conversations expired now ourConversationId rest
                (snd (scan_members now h (members (h g)) seen)) h \<and>
            m \<notin> set (fst (scan_members now h (members (h g)) seen))) \<and>
         (m \<notin> set conversations \<longrightarrow>
            m \<notin> set (yields (getConversationsToRefresh expired now h conversations ourConversationId)) \<and>
            heap_after h (getConversationsToRefresh expired now h conversations ourConversationId) m =
              h m)"
proof -
  have a: "m \<notin> set (fst (scan_members now h (members (h g)) seen))"
    using scan_members_fresh [of m now h "members (h g)" seen] assms by blast
  have b: "m \<notin> set (yields (getConversationsToRefresh expired now h conversations ourConversationId)) \<and>
           heap_after h (getConversationsToRefresh expired now h conversations ourConversationId) m = h m"
    if "m \<notin> set conversations"
    using that assms by (rule selection_frame)
  from a b show ?thesis
    by (simp add: scan_Group del: scan_conversations.simps)
qed

theorem recent_member_not_overridden_witness:
  "conversation_type (family 3) = Group \<and> 4 \<in> set (members (family 3)) \<and>
   expired_at today (family 4) \<and>
   scan_conversations (expired_at today) today ''me'' [3] {''me''} family = [Yield 2 family] \<and>
   4 \<notin> set (yields (getConversationsToRefresh (expired_at today) today family [0, 1, 2, 3] ''me'')) \<and>
   heap_after family (getConversationsToRefresh (expired_at today) today family [0, 1, 2, 3] ''me'') 4 =
     family 4"
proof -
  have n: "4 \<notin> set [0, 1, 2, 3::nat]" by simp
  have r: "hasRefreshedProfileRecently today (family 4)"
    by (simp add: family_def contact_def hasRefreshedProfileRecently_def today_def
        MAX_AGE_TO_BE_CONSIDERED_RECENTLY_REFRESHED_def DAY_def HOUR_def MINUTE_def)
  have g: "conversation_type (family 3) = Group \<and> 4 \<in> set (members (family 3)) \<and>
           expired_at today (family 4)"
    by (simp add: family_def contact_def expired_at_def today_def)
  have s: "fst (scan_members today family (members (family 3)) {''me''}) = [2]"
    by code_simp
  from recent_member_not_overridden
         [where m = 4 and conversations = "[0, 1, 2, 3]" and h = family and now = today
            and expired = "expired_at today" and ourConversationId = "''me''" and g = 3
            and rest = "[]" and seen = "{''me''}", OF r] n g
  show ?thesis unfolding s by simp
qed

end
